theory Spec2Isabelle
  imports Main "HOL-Library.AList"
begin

section \<open>JavaScript values and the heap\<close>

text \<open>
  The graph codec of \<^verbatim>\<open>hooks.ts\<close> works on JavaScript values and depends on reference
  identity, so objects live in an explicit store. A value is a primitive or a reference to
  an object of the store; an object is an array, a plain object (its own enumerable
  properties in enumeration order) or a function (of which the codec only reads the name).
  Numbers are modelled by integers: \<^verbatim>\<open>NaN\<close> and the signed zero lie outside the model.
\<close>

type_synonym addr = nat

datatype prim = JUndefined | JNull | JBool bool | JNum int | JStr string

datatype jsval = Prim prim | Ref addr

datatype jsobj = Arr "jsval list" | Obj "(string \<times> jsval) list" | Fn string

type_synonym heap = "addr \<Rightarrow> jsobj option"

datatype error = TypeError | HydrationError

section \<open>The graph codec: \<^verbatim>\<open>dehydrateValue\<close>\<close>

text \<open>
  \<^verbatim>\<open>Dehydrated<T> = Record<number, number | string | boolean | number[] | Record<string, number>>\<close>:
  a node is a primitive, an array of ids or an object whose property values are ids.
\<close>

datatype node = NPrim prim | NArr "nat list" | NObj "(string \<times> nat) list"

type_synonym dehydrated = "(nat \<times> node) list"

text \<open>
  \<^verbatim>\<open>const cache = new Map<any, { id: number; value: any }>(); let nextId = 0;\<close>
  A \<^verbatim>\<open>Map\<close> compares keys by SameValueZero: primitives by value, objects by identity,
  which is equality of \<^typ>\<open>jsval\<close>. It iterates in insertion order, so the cache is an
  association list that grows at its end.
\<close>

record entry =
  entry_id :: nat
  entry_value :: node

record dstate =
  cache :: "(jsval \<times> entry) list"
  nextId :: nat

definition ignoredKeys :: "string list" where
  "ignoredKeys = [''checker'']"

text \<open>
  \<^verbatim>\<open>Object.entries(value).filter(([key]) => hasOwnProperty.call(value, key) &&
  !ignoredKeys.includes(key))\<close>: the properties of an object of the store are its own.
\<close>

definition own_properties :: "(string \<times> jsval) list \<Rightarrow> (string \<times> jsval) list" where
  "own_properties kvs = filter (\<lambda>(k, _). k \<notin> set ignoredKeys) kvs"

text \<open>
  \<^verbatim>\<open>Object.assign(target, Object.fromEntries(entries))\<close> with a new object \<^verbatim>\<open>{}\<close> as its
  target, as both \<^verbatim>\<open>serialize\<close> and \<^verbatim>\<open>deserialize\<close> build their objects.
  \<^verbatim>\<open>Object.fromEntries\<close> defines every entry as an own property; \<^verbatim>\<open>Object.assign\<close> then
  copies them by ordinary assignment. Assigning to \<^verbatim>\<open>__proto__\<close> runs the setter inherited
  from \<^verbatim>\<open>Object.prototype\<close> and makes no property: the entry of that name is not in the
  target. (The setter ignores a value that is not an object; an object it installs as
  the prototype of the target, which the store does not record.)
\<close>

definition assigned :: "(string \<times> 'a) list \<Rightarrow> (string \<times> 'a) list" where
  "assigned kvs = filter (\<lambda>(k, _). k \<noteq> ''__proto__'') kvs"

text \<open>\<^verbatim>\<open>entry.value = ...\<close>: the entry object stored under \<open>v\<close> is mutated in place.\<close>

definition set_entry_value :: "jsval \<Rightarrow> node \<Rightarrow> dstate \<Rightarrow> dstate" where
  "set_entry_value v x st =
     st\<lparr>cache := map (\<lambda>(k, e). if k = v then (k, e\<lparr>entry_value := x\<rparr>) else (k, e)) (cache st)\<rparr>"

text \<open>\<^verbatim>\<open>const entry = { id: nextId++, value: undefined }; cache.set(value, entry)\<close>\<close>

definition add_entry :: "jsval \<Rightarrow> dstate \<Rightarrow> dstate" where
  "add_entry v st =
     st\<lparr>cache := cache st @ [(v, \<lparr>entry_id = nextId st, entry_value = NPrim JUndefined\<rparr>)],
        nextId := Suc (nextId st)\<rparr>"

text \<open>\<^verbatim>\<open>`function_${value.name || '[anon]'}`\<close>\<close>

definition function_placeholder :: "string \<Rightarrow> string" where
  "function_placeholder name = ''function_'' @ (if name = [] then ''[anon]'' else name)"

text \<open>
  \<^verbatim>\<open>serialize\<close> recurses through the children of a value while the cache and the counter
  change under it. The recursion is bounded by fuel (one unit per nesting level of
  \<^verbatim>\<open>serialize\<close>); \<open>None\<close> is "no answer within the fuel", and also the answer for a
  reference that designates no object, which JavaScript cannot build. The branches are
  those of the source: \<^verbatim>\<open>Array.isArray\<close>, \<^verbatim>\<open>typeof value === 'function'\<close>,
  \<^verbatim>\<open>typeof value !== 'object'\<close> (every primitive but \<^verbatim>\<open>null\<close>), and the object branch,
  which \<^verbatim>\<open>null\<close> reaches too, where \<^verbatim>\<open>Object.entries(null)\<close> throws a TypeError. In the
  object branch every own property that is not ignored is serialized, and the node is
  what \<^verbatim>\<open>Object.assign\<close> makes of the entries.
\<close>

fun serialize :: "nat \<Rightarrow> heap \<Rightarrow> dstate \<Rightarrow> jsval \<Rightarrow> (error + dstate \<times> nat) option"
  and serialize_each :: "nat \<Rightarrow> heap \<Rightarrow> dstate \<Rightarrow> jsval list \<Rightarrow> (error + dstate \<times> nat list) option"
where
  "serialize 0 h st v = None"
| "serialize (Suc n) h st v =
    (case map_of (cache st) v of
       Some e \<Rightarrow> Some (Inr (st, entry_id e))
     | None \<Rightarrow>
        (let i = nextId st;
             st1 = add_entry v st
         in case v of
              Ref a \<Rightarrow>
                (case h a of
                   None \<Rightarrow> None
                 | Some (Arr xs) \<Rightarrow>
                     (case serialize_each n h st1 xs of
                        None \<Rightarrow> None
                      | Some (Inl e) \<Rightarrow> Some (Inl e)
                      | Some (Inr (st2, ids)) \<Rightarrow> Some (Inr (set_entry_value v (NArr ids) st2, i)))
                 | Some (Fn name) \<Rightarrow>
                     Some (Inr (set_entry_value v (NPrim (JStr (function_placeholder name))) st1, i))
                 | Some (Obj kvs) \<Rightarrow>
                     (let own = own_properties kvs
                      in case serialize_each n h st1 (map snd own) of
                           None \<Rightarrow> None
                         | Some (Inl e) \<Rightarrow> Some (Inl e)
                         | Some (Inr (st2, ids)) \<Rightarrow>
                             Some (Inr (set_entry_value v (NObj (assigned (zip (map fst own) ids))) st2, i))))
            | Prim p \<Rightarrow>
                (if p = JNull then Some (Inl TypeError)
                 else Some (Inr (set_entry_value v (NPrim p) st1, i)))))"
| "serialize_each n h st [] = Some (Inr (st, []))"
| "serialize_each n h st (x # xs) =
    (case serialize n h st x of
       None \<Rightarrow> None
     | Some (Inl e) \<Rightarrow> Some (Inl e)
     | Some (Inr (st1, i)) \<Rightarrow>
         (case serialize_each n h st1 xs of
            None \<Rightarrow> None
          | Some (Inl e) \<Rightarrow> Some (Inl e)
          | Some (Inr (st2, ids)) \<Rightarrow> Some (Inr (st2, i # ids))))"

text \<open>
  \<^verbatim>\<open>serialize(type); return Object.fromEntries(Array.from(cache.entries()).map(([, { id, value }]) => [id, value]))\<close>
\<close>

definition dehydrateValue :: "nat \<Rightarrow> heap \<Rightarrow> jsval \<Rightarrow> (error + dehydrated) option" where
  "dehydrateValue fuel h v =
    (case serialize fuel h \<lparr>cache = [], nextId = 0\<rparr> v of
       None \<Rightarrow> None
     | Some (Inl e) \<Rightarrow> Some (Inl e)
     | Some (Inr (st, _)) \<Rightarrow> Some (Inr (map (\<lambda>(_, e). (entry_id e, entry_value e)) (cache st))))"

section \<open>The graph codec: \<^verbatim>\<open>hydrateValue\<close>\<close>

text \<open>
  \<^verbatim>\<open>value[k]\<close> is \<^verbatim>\<open>undefined\<close> for an absent id, the primitive itself for a primitive node,
  and otherwise the array or object stored under \<open>k\<close>. The cache of \<^verbatim>\<open>hydrateValue\<close> is
  keyed by these values: primitives by value, arrays and objects by identity. Every array
  and object node of a record built by \<^verbatim>\<open>dehydrateValue\<close> (or parsed from JSON) is an
  object of its own, so the identity of the node stored under \<open>k\<close> is \<open>k\<close>.
\<close>

datatype dvalue = DPrim prim | DNode nat

definition lookup :: "dehydrated \<Rightarrow> nat \<Rightarrow> dvalue" where
  "lookup d k =
    (case map_of d k of
       None \<Rightarrow> DPrim JUndefined
     | Some (NPrim p) \<Rightarrow> DPrim p
     | Some _ \<Rightarrow> DNode k)"

text \<open>
  \<^verbatim>\<open>const cache = new Map<any, { value: any }>()\<close>, the store the rebuilt objects are
  allocated in, and the next free address of that store.
\<close>

record hstate =
  hcache :: "(dvalue \<times> jsval) list"
  hheap :: heap
  hnext :: addr

definition set_cache_value :: "dvalue \<Rightarrow> jsval \<Rightarrow> hstate \<Rightarrow> hstate" where
  "set_cache_value val r st =
     st\<lparr>hcache := map (\<lambda>(k, x). if k = val then (k, r) else (k, x)) (hcache st)\<rparr>"

text \<open>\<^verbatim>\<open>const cacheEntry = { value: undefined }; cache.set(val, cacheEntry)\<close>\<close>

definition add_hentry :: "dvalue \<Rightarrow> hstate \<Rightarrow> hstate" where
  "add_hentry val st = st\<lparr>hcache := hcache st @ [(val, Prim JUndefined)]\<rparr>"

definition alloc :: "jsobj \<Rightarrow> hstate \<Rightarrow> addr \<times> hstate" where
  "alloc ob st = (hnext st, st\<lparr>hheap := (hheap st)(hnext st \<mapsto> ob), hnext := Suc (hnext st)\<rparr>)"

text \<open>
  \<^verbatim>\<open>deserialize\<close>, with fuel as above. The cache entry starts as \<^verbatim>\<open>{ value: undefined }\<close>.
  An array node assigns \<^verbatim>\<open>cacheEntry.value\<close> only when \<^verbatim>\<open>val.map(...)\<close> has returned;
  an object node assigns the empty object first and fills it by \<^verbatim>\<open>Object.assign\<close> after
  its entries are rebuilt. \<^verbatim>\<open>null\<close> has \<^verbatim>\<open>typeof null === 'object'\<close> and throws in
  \<^verbatim>\<open>Object.entries(null)\<close>.
\<close>

fun deserialize :: "nat \<Rightarrow> dehydrated \<Rightarrow> hstate \<Rightarrow> dvalue \<Rightarrow> (error + hstate \<times> jsval) option"
  and deserialize_each :: "nat \<Rightarrow> dehydrated \<Rightarrow> hstate \<Rightarrow> dvalue list \<Rightarrow> (error + hstate \<times> jsval list) option"
where
  "deserialize 0 d st val = None"
| "deserialize (Suc n) d st val =
    (case map_of (hcache st) val of
       Some r \<Rightarrow> Some (Inr (st, r))
     | None \<Rightarrow>
        (let st1 = add_hentry val st
         in case val of
              DNode k \<Rightarrow>
                (case map_of d k of
                   Some (NArr ks) \<Rightarrow>
                     (case deserialize_each n d st1 (map (lookup d) ks) of
                        None \<Rightarrow> None
                      | Some (Inl e) \<Rightarrow> Some (Inl e)
                      | Some (Inr (st2, rs)) \<Rightarrow>
                          (let (a, st3) = alloc (Arr rs) st2
                           in Some (Inr (set_cache_value val (Ref a) st3, Ref a))))
                 | Some (NObj kvs) \<Rightarrow>
                     (let (a, st2) = alloc (Obj []) st1;
                          st3 = set_cache_value val (Ref a) st2
                      in case deserialize_each n d st3 (map (\<lambda>(k, v). lookup d v) kvs) of
                           None \<Rightarrow> None
                         | Some (Inl e) \<Rightarrow> Some (Inl e)
                         | Some (Inr (st4, rs)) \<Rightarrow>
                             Some (Inr (st4\<lparr>hheap := (hheap st4)(a \<mapsto> Obj (assigned (zip (map fst kvs) rs)))\<rparr>,
                                        Ref a)))
                 | _ \<Rightarrow> None)
            | DPrim p \<Rightarrow>
                (if p = JNull then Some (Inl TypeError)
                 else Some (Inr (set_cache_value val (Prim p) st1, Prim p)))))"
| "deserialize_each n d st [] = Some (Inr (st, []))"
| "deserialize_each n d st (x # xs) =
    (case deserialize n d st x of
       None \<Rightarrow> None
     | Some (Inl e) \<Rightarrow> Some (Inl e)
     | Some (Inr (st1, r)) \<Rightarrow>
         (case deserialize_each n d st1 xs of
            None \<Rightarrow> None
          | Some (Inl e) \<Rightarrow> Some (Inl e)
          | Some (Inr (st2, rs)) \<Rightarrow> Some (Inr (st2, r # rs))))"

text \<open>
  \<^verbatim>\<open>if (!value || Object.keys(value).length === 0) throw new Error('Hydration error')\<close>;
  \<^verbatim>\<open>return deserialize(value[0])\<close>. The argument is \<open>None\<close> for \<^verbatim>\<open>undefined\<close>, which the
  introspection handler may return in place of a record. The result is the rebuilt value
  and the store it lives in.
\<close>

definition hydrateValue :: "nat \<Rightarrow> dehydrated option \<Rightarrow> (error + jsval \<times> heap) option" where
  "hydrateValue fuel v =
    (case v of
       None \<Rightarrow> Some (Inl HydrationError)
     | Some d \<Rightarrow>
        if length (map fst d) = 0 then Some (Inl HydrationError)
        else (case deserialize fuel d \<lparr>hcache = [], hheap = Map.empty, hnext = 0\<rparr> (lookup d 0) of
                None \<Rightarrow> None
              | Some (Inl e) \<Rightarrow> Some (Inl e)
              | Some (Inr (st, r)) \<Rightarrow> Some (Inr (r, hheap st))))"

section \<open>The graphs of the codec\<close>

subsection \<open>The graph of a value\<close>

text \<open>
  The children of a value are what \<^verbatim>\<open>serialize\<close> visits from it: the elements of an
  array and the values of the own properties of an object. \<open>reach h v\<close> is the set of
  values \<^verbatim>\<open>serialize\<close> can come to from \<open>v\<close>.
\<close>

definition children :: "heap \<Rightarrow> jsval \<Rightarrow> jsval list" where
  "children h x =
     (case x of
        Prim p \<Rightarrow> []
      | Ref a \<Rightarrow>
          (case h a of
             Some (Arr xs) \<Rightarrow> xs
           | Some (Obj kvs) \<Rightarrow> map snd (own_properties kvs)
           | _ \<Rightarrow> []))"

inductive_set reach :: "heap \<Rightarrow> jsval \<Rightarrow> jsval set" for h :: heap and v :: jsval where
  root: "v \<in> reach h v"
| child: "x \<in> reach h v \<Longrightarrow> y \<in> set (children h x) \<Longrightarrow> y \<in> reach h v"

text \<open>
  \<^verbatim>\<open>serialize\<close> and \<^verbatim>\<open>deserialize\<close> go through a graph in the same way: depth first, the
  children of a value in their order, and no value is entered twice. \<open>traverse\<close> is this
  walk for a graph given by its children \<open>ch\<close> and its arrays \<open>arr\<close>. \<open>seen\<close> lists the
  values entered so far and \<open>opn\<close> the arrays among them whose elements are still being
  walked. The walk returns the values it has entered, and whether no array was met again
  while it was open; fuel is counted as in \<^verbatim>\<open>serialize\<close>.
\<close>

fun traverse :: "nat \<Rightarrow> ('a \<Rightarrow> 'a list) \<Rightarrow> ('a \<Rightarrow> bool) \<Rightarrow> 'a list \<Rightarrow> 'a list \<Rightarrow> 'a
                   \<Rightarrow> ('a list \<times> bool) option"
  and traverse_each :: "nat \<Rightarrow> ('a \<Rightarrow> 'a list) \<Rightarrow> ('a \<Rightarrow> bool) \<Rightarrow> 'a list \<Rightarrow> 'a list \<Rightarrow> 'a list
                   \<Rightarrow> ('a list \<times> bool) option"
where
  "traverse 0 ch arr seen opn x = None"
| "traverse (Suc n) ch arr seen opn x =
     (if x \<in> set seen then Some (seen, x \<notin> set opn)
      else traverse_each n ch arr (x # seen) (if arr x then x # opn else opn) (ch x))"
| "traverse_each n ch arr seen opn [] = Some (seen, True)"
| "traverse_each n ch arr seen opn (x # xs) =
     (case traverse n ch arr seen opn x of
        None \<Rightarrow> None
      | Some (seen1, ok1) \<Rightarrow>
          (case traverse_each n ch arr seen1 opn xs of
             None \<Rightarrow> None
           | Some (seen2, ok2) \<Rightarrow> Some (seen2, ok1 \<and> ok2)))"

definition is_array :: "heap \<Rightarrow> jsval \<Rightarrow> bool" where
  "is_array h x = (case x of Ref a \<Rightarrow> (case h a of Some (Arr xs) \<Rightarrow> True | _ \<Rightarrow> False) | _ \<Rightarrow> False)"

text \<open>
  The node \<^verbatim>\<open>serialize\<close> is to store for a value, given the ids of the values: a primitive
  as itself, a function as its placeholder, an array as the ids of its elements, an
  object as its own properties with the ids of their values, less what \<^verbatim>\<open>Object.assign\<close>
  drops.
\<close>

definition encode :: "heap \<Rightarrow> (jsval \<Rightarrow> nat) \<Rightarrow> jsval \<Rightarrow> node" where
  "encode h ids x =
     (case x of
        Prim p \<Rightarrow> NPrim p
      | Ref a \<Rightarrow>
          (case h a of
             Some (Arr xs) \<Rightarrow> NArr (map ids xs)
           | Some (Obj kvs) \<Rightarrow> NObj (assigned (map (\<lambda>(k, y). (k, ids y)) (own_properties kvs)))
           | Some (Fn name) \<Rightarrow> NPrim (JStr (function_placeholder name))
           | None \<Rightarrow> NPrim JUndefined))"

text \<open>What the cache says of a value: its id, its node, and whether it is there.\<close>

definition idof :: "dstate \<Rightarrow> jsval \<Rightarrow> nat" where
  "idof st x = (case map_of (cache st) x of Some e \<Rightarrow> entry_id e | None \<Rightarrow> 0)"

definition nodeof :: "dstate \<Rightarrow> jsval \<Rightarrow> node" where
  "nodeof st x = (case map_of (cache st) x of Some e \<Rightarrow> entry_value e | None \<Rightarrow> NPrim JUndefined)"

definition cached :: "dstate \<Rightarrow> jsval set" where
  "cached st = fst ` set (cache st)"

text \<open>
  The cache is in order when no value and no id occurs twice in it and every id is below
  the counter. An entry is complete when its node is the encoding of its value under the
  ids of the cache and the children of the value are in the cache.
\<close>

definition dstate_ok :: "dstate \<Rightarrow> bool" where
  "dstate_ok st \<longleftrightarrow>
     distinct (map fst (cache st))
     \<and> distinct (map (\<lambda>(x, e). entry_id e) (cache st))
     \<and> (\<forall>(x, e) \<in> set (cache st). entry_id e < nextId st)"

definition complete :: "heap \<Rightarrow> dstate \<Rightarrow> jsval \<Rightarrow> bool" where
  "complete h st x \<longleftrightarrow> nodeof st x = encode h (idof st) x \<and> set (children h x) \<subseteq> cached st"

text \<open>
  A set of values \<^verbatim>\<open>serialize\<close> can work in: closed under children, every reference in
  it designating an object, and without \<^verbatim>\<open>null\<close>.
\<close>

definition closed :: "heap \<Rightarrow> jsval set \<Rightarrow> bool" where
  "closed h R \<longleftrightarrow>
     (\<forall>x \<in> R. set (children h x) \<subseteq> R
               \<and> x \<noteq> Prim JNull
               \<and> (\<forall>a. x = Ref a \<longrightarrow> h a \<noteq> None))"
text \<open>
  What a call of \<^verbatim>\<open>serialize\<close> made in the state \<open>st\<close> leaves behind in \<open>st'\<close>: the entries that
  were there are untouched, and every entry that was added is complete.
\<close>

definition serialized :: "heap \<Rightarrow> jsval set \<Rightarrow> dstate \<Rightarrow> dstate \<Rightarrow> bool" where
  "serialized h R st st' \<longleftrightarrow>
     dstate_ok st' \<and> cached st' \<subseteq> R
     \<and> (\<exists>new. cache st' = cache st @ new \<and> (\<forall>y \<in> fst ` set new. complete h st' y))"

subsection \<open>The graph of a dehydrated record\<close>

text \<open>
  The values \<^verbatim>\<open>deserialize\<close> visits from a value of the record: the entries an array node
  or an object node refers to.
\<close>

definition dchildren :: "dehydrated \<Rightarrow> dvalue \<Rightarrow> dvalue list" where
  "dchildren d val =
     (case val of
        DPrim p \<Rightarrow> []
      | DNode k \<Rightarrow>
          (case map_of d k of
             Some (NArr ks) \<Rightarrow> map (lookup d) ks
           | Some (NObj kvs) \<Rightarrow> map (\<lambda>(k, v). lookup d v) kvs
           | _ \<Rightarrow> []))"

definition is_darray :: "dehydrated \<Rightarrow> dvalue \<Rightarrow> bool" where
  "is_darray d val =
     (case val of DNode k \<Rightarrow> (case map_of d k of Some (NArr ks) \<Rightarrow> True | _ \<Rightarrow> False) | _ \<Rightarrow> False)"

text \<open>What the cache of \<^verbatim>\<open>hydrateValue\<close> says of a value of the record.\<close>

definition hcached :: "hstate \<Rightarrow> dvalue set" where
  "hcached st = fst ` set (hcache st)"

definition rebuilt :: "hstate \<Rightarrow> dvalue \<Rightarrow> jsval" where
  "rebuilt st val = (case map_of (hcache st) val of Some r \<Rightarrow> r | None \<Rightarrow> Prim JUndefined)"

text \<open>
  An array node whose \<^verbatim>\<open>val.map(...)\<close> has not returned yet: its cache entry still holds
  \<^verbatim>\<open>undefined\<close>.
\<close>

definition unfinished :: "hstate \<Rightarrow> dvalue set" where
  "unfinished st = {val. \<exists>k. val = DNode k \<and> map_of (hcache st) val = Some (Prim JUndefined)}"

text \<open>
  A set of values of the record \<^verbatim>\<open>deserialize\<close> can work in: closed under children,
  without \<^verbatim>\<open>null\<close>, and every node in it an array or an object.
\<close>

definition dclosed :: "dehydrated \<Rightarrow> dvalue set \<Rightarrow> bool" where
  "dclosed d R \<longleftrightarrow>
     (\<forall>val \<in> R. set (dchildren d val) \<subseteq> R
                 \<and> val \<noteq> DPrim JNull
                 \<and> (\<forall>k. val = DNode k \<longrightarrow>
                        (\<exists>ks. map_of d k = Some (NArr ks))
                        \<or> (\<exists>kvs. map_of d k = Some (NObj kvs))))"

text \<open>
  The state of \<^verbatim>\<open>hydrateValue\<close> is in order when a primitive is cached as itself, an
  object node as a reference, a node with \<^verbatim>\<open>undefined\<close> is an array node, the references
  of the cache are allocated and differ from node to node, and nothing lies at or above
  the next free address.
\<close>

definition hstate_ok :: "dehydrated \<Rightarrow> hstate \<Rightarrow> bool" where
  "hstate_ok d st \<longleftrightarrow>
     (\<forall>p r. map_of (hcache st) (DPrim p) = Some r \<longrightarrow> r = Prim p)
     \<and> (\<forall>k r. map_of (hcache st) (DNode k) = Some r \<longrightarrow>
           (\<exists>a. r = Ref a \<and> a < hnext st)
           \<or> (r = Prim JUndefined \<and> (\<exists>ks. map_of d k = Some (NArr ks))))
     \<and> (\<forall>k k' a. map_of (hcache st) (DNode k) = Some (Ref a)
           \<and> map_of (hcache st) (DNode k') = Some (Ref a) \<longrightarrow> k = k')
     \<and> (\<forall>a. hnext st \<le> a \<longrightarrow> hheap st a = None)"

text \<open>
  A cache entry is complete when a primitive is rebuilt as itself, and a node as a
  reference to an array or object that holds the rebuilt values of the entries the node
  refers to (less what \<^verbatim>\<open>Object.assign\<close> drops), all of which are in the cache and none of
  which is an unfinished array.
\<close>

definition hcomplete :: "dehydrated \<Rightarrow> hstate \<Rightarrow> dvalue \<Rightarrow> bool" where
  "hcomplete d st val \<longleftrightarrow>
     (case val of
        DPrim p \<Rightarrow> rebuilt st val = Prim p
      | DNode k \<Rightarrow>
          (\<exists>a. rebuilt st val = Ref a
             \<and> (case map_of d k of
                  Some (NArr ks) \<Rightarrow> hheap st a = Some (Arr (map (rebuilt st \<circ> lookup d) ks))
                | Some (NObj kvs) \<Rightarrow>
                    hheap st a
                      = Some (Obj (assigned (map (\<lambda>(k, v). (k, rebuilt st (lookup d v))) kvs)))
                | _ \<Rightarrow> False)))
     \<and> val \<in> hcached st
     \<and> set (dchildren d val) \<subseteq> hcached st - unfinished st"

text \<open>
  What a call of \<^verbatim>\<open>deserialize\<close> made in the state \<open>st\<close> leaves behind in \<open>st'\<close>: the cache
  entries and the objects that were there are untouched, and every entry that was added
  is complete.
\<close>

definition deserialized :: "dehydrated \<Rightarrow> dvalue set \<Rightarrow> hstate \<Rightarrow> hstate \<Rightarrow> bool" where
  "deserialized d R st st' \<longleftrightarrow>
     hstate_ok d st' \<and> hcached st \<subseteq> hcached st' \<and> hcached st' \<subseteq> R
     \<and> (\<forall>val \<in> hcached st. map_of (hcache st') val = map_of (hcache st) val)
     \<and> hnext st \<le> hnext st'
     \<and> (\<forall>a. a < hnext st \<longrightarrow> hheap st' a = hheap st a)
     \<and> (\<forall>val \<in> hcached st' - hcached st. hcomplete d st' val)"

subsection \<open>Values the codec gives back\<close>

text \<open>
  The values \<^verbatim>\<open>dehydrateValue\<close> and \<^verbatim>\<open>hydrateValue\<close> are proved to give back. Everything
  reached from the value is a primitive other than \<^verbatim>\<open>null\<close>, an array, or an object
  without an own property named \<^verbatim>\<open>__proto__\<close>; so no function is reached.
\<close>

definition plain :: "heap \<Rightarrow> jsval \<Rightarrow> bool" where
  "plain h v \<longleftrightarrow>
     (\<forall>x \<in> reach h v.
        x \<noteq> Prim JNull
        \<and> (\<forall>a. x = Ref a \<longrightarrow>
              (\<exists>xs. h a = Some (Arr xs))
              \<or> (\<exists>kvs. h a = Some (Obj kvs) \<and> ''__proto__'' \<notin> fst ` set kvs)))"

text \<open>
  No array is met again while its elements are still being walked, in the walk that
  starts at \<open>v\<close>. An array may lie on a cycle, as in \<^verbatim>\<open>o = { arr: [o] }\<close> walked from \<open>o\<close>:
  there the walk meets \<open>o\<close> again, not the array.
\<close>

definition no_reentry :: "nat \<Rightarrow> heap \<Rightarrow> jsval \<Rightarrow> bool" where
  "no_reentry fuel h v =
     (case traverse fuel (children h) (is_array h) [] [] v of
        Some (seen, ok) \<Rightarrow> ok
      | None \<Rightarrow> False)"

text \<open>The store without the properties \<^verbatim>\<open>serialize\<close> ignores.\<close>

definition without_ignored :: "heap \<Rightarrow> heap" where
  "without_ignored h a =
     (case h a of Some (Obj kvs) \<Rightarrow> Some (Obj (own_properties kvs)) | ob \<Rightarrow> ob)"

text \<open>
  \<open>same_graph h h' f R\<close>: the values of \<open>R\<close> in the store \<open>h\<close> and their images under \<open>f\<close>
  in the store \<open>h'\<close> are the same graph. A primitive is its own image; the image of a
  reference is a reference to the same kind of object with the images of the same
  children under the same names; and different values have different images. So two
  properties hold the same object in \<open>h'\<close> exactly when they did in \<open>h\<close>.
\<close>

fun map_jsobj :: "(jsval \<Rightarrow> jsval) \<Rightarrow> jsobj \<Rightarrow> jsobj" where
  "map_jsobj f (Arr xs) = Arr (map f xs)"
| "map_jsobj f (Obj kvs) = Obj (map (\<lambda>(k, y). (k, f y)) kvs)"
| "map_jsobj f (Fn name) = Fn name"

definition same_graph :: "heap \<Rightarrow> heap \<Rightarrow> (jsval \<Rightarrow> jsval) \<Rightarrow> jsval set \<Rightarrow> bool" where
  "same_graph h h' f R \<longleftrightarrow>
     inj_on f R
     \<and> (\<forall>x \<in> R. case x of
                   Prim p \<Rightarrow> f x = Prim p
                 | Ref a \<Rightarrow> (\<exists>a'. f x = Ref a' \<and> h' a' = map_option (map_jsobj f) (h a)))"

text \<open>The value of the record that stands for a value of the store.\<close>

definition dvalue_of :: "dstate \<Rightarrow> jsval \<Rightarrow> dvalue" where
  "dvalue_of st x = (case x of Prim p \<Rightarrow> DPrim p | Ref a \<Rightarrow> DNode (idof st x))"

definition to_record :: "dstate \<Rightarrow> dehydrated" where
  "to_record st = map (\<lambda>(_, e). (entry_id e, entry_value e)) (cache st)"

text \<open>
  \<open>encodes h v st\<close>: the cache \<open>st\<close> is what \<^verbatim>\<open>serialize\<close> leaves behind for the value \<open>v\<close>:
  an entry for exactly the values reached from \<open>v\<close>, every one complete, with \<open>v\<close> under
  id 0.
\<close>

definition encodes :: "heap \<Rightarrow> jsval \<Rightarrow> dstate \<Rightarrow> bool" where
  "encodes h v st \<longleftrightarrow>
     dstate_ok st \<and> cached st = reach h v \<and> (\<forall>y \<in> reach h v. complete h st y) \<and> idof st v = 0"

section \<open>The message channel (\<^verbatim>\<open>class MessageChannel\<close>)\<close>

text \<open>
  A thrown value is an \<^verbatim>\<open>Error\<close> with its message. A body is a payload or the object
  \<^verbatim>\<open>{ stack: e.stack }\<close> that \<^verbatim>\<open>messageHandler\<close> builds from a caught error \<open>e\<close>.
  A frame is \<^verbatim>\<open>{ source, n?, message }\<close>, its message a request, a response or anything
  else (held by its \<^verbatim>\<open>type\<close>).
\<close>

datatype thrown = Error string

datatype 'a body = Payload 'a | Stack thrown

datatype 'a message = REQUEST string "'a body" | RESPONSE nat "'a body" bool | OTHER string

record 'a raw_message =
  rm_source :: string
  rm_n :: "nat option"
  rm_message :: "'a message"

text \<open>
  A promise is pending, fulfilled or rejected. \<^verbatim>\<open>request\<close> rejects with a
  \<^verbatim>\<open>ResponseError\<close> holding the body of an error response, or with a plain error (the
  timeout).
\<close>

datatype ('v, 'e) promise = Pending | Fulfilled 'v | Rejected 'e

datatype 'a rejection = ResponseError "'a body" | Plain thrown

text \<open>
  What \<^verbatim>\<open>eventEmitter.emit\<close> is called with: the whole frame under the name
  \<^verbatim>\<open>message\<close>, or the inner message of a frame under the name of its type.
\<close>

datatype 'a emission = Frame "'a raw_message" | Inner "'a message"

text \<open>
  The state of one channel. \<^verbatim>\<open>responseHandlers\<close> maps a sequence number to
  \<^verbatim>\<open>{ resolve, reject, timeout }\<close>: the promise the two functions settle, and the timer.
  \<open>promises\<close> holds the promises \<^verbatim>\<open>request\<close> has made and \<open>timers\<close> the armed timers, each
  with the promise its callback rejects; the request with sequence number \<open>k\<close> names its
  promise and its timer \<open>k\<close>. \<open>sent\<close> lists the frames handed to \<^verbatim>\<open>config.send\<close>,
  \<open>emitted\<close> the calls of \<^verbatim>\<open>eventEmitter.emit\<close> and \<open>logged\<close> those of \<^verbatim>\<open>console.log\<close>.
\<close>

record response_handler =
  rh_promise :: nat
  rh_timeout :: nat

record 'a channel =
  ch_n :: nat
  handlerRegistry :: "string \<Rightarrow> ('a body \<Rightarrow> thrown + 'a body) option"
  responseHandlers :: "nat \<Rightarrow> response_handler option"
  promises :: "nat \<Rightarrow> ('a body, 'a rejection) promise option"
  timers :: "nat \<Rightarrow> nat option"
  sent :: "'a raw_message list"
  emitted :: "(string \<times> 'a emission) list"
  logged :: "thrown list"

definition TIMEOUT :: nat where
  "TIMEOUT = 3600000"

text \<open>\<^verbatim>\<open>new MessageChannel(config, handlerRegistry)\<close>: the registry is copied into the channel.\<close>

definition new_channel :: "(string \<Rightarrow> ('a body \<Rightarrow> thrown + 'a body) option) \<Rightarrow> 'a channel" where
  "new_channel registry =
     \<lparr>ch_n = 0, handlerRegistry = registry, responseHandlers = Map.empty, promises = Map.empty,
      timers = Map.empty, sent = [], emitted = [], logged = []\<rparr>"

definition config_send :: "'a raw_message \<Rightarrow> 'a channel \<Rightarrow> 'a channel" where
  "config_send m ch = ch\<lparr>sent := sent ch @ [m]\<rparr>"

text \<open>\<^verbatim>\<open>send(message) { return this.config.send({ message, source: 'MessageChannel' }) }\<close>\<close>

definition send :: "'a message \<Rightarrow> 'a channel \<Rightarrow> 'a channel" where
  "send message ch =
     config_send \<lparr>rm_source = ''MessageChannel'', rm_n = None, rm_message = message\<rparr> ch"

text \<open>\<^verbatim>\<open>const n = this.n++; this.config.send({ n, message, source: 'MessageChannel' }); return n\<close>\<close>

definition sendNumbered :: "'a message \<Rightarrow> 'a channel \<Rightarrow> nat \<times> 'a channel" where
  "sendNumbered message ch =
     (ch_n ch,
      config_send \<lparr>rm_source = ''MessageChannel'', rm_n = Some (ch_n ch), rm_message = message\<rparr>
        (ch\<lparr>ch_n := Suc (ch_n ch)\<rparr>))"

text \<open>
  \<^verbatim>\<open>request\<close>: a new promise, a timer of \<^verbatim>\<open>TIMEOUT\<close> ms whose callback only calls
  \<^verbatim>\<open>reject\<close>, and the entry of \<^verbatim>\<open>responseHandlers\<close>. It returns the sequence number, which
  names the promise.
\<close>

definition request :: "string \<Rightarrow> 'a body \<Rightarrow> 'a channel \<Rightarrow> nat \<times> 'a channel" where
  "request key body ch =
     (let (k, ch1) = sendNumbered (REQUEST key body) ch
      in (k, ch1\<lparr>promises := (promises ch1)(k \<mapsto> Pending),
                  timers := (timers ch1)(k \<mapsto> k),
                  responseHandlers := (responseHandlers ch1)(k \<mapsto> \<lparr>rh_promise = k, rh_timeout = k\<rparr>)\<rparr>))"

text \<open>\<^verbatim>\<open>resolve\<close> and \<^verbatim>\<open>reject\<close> of a promise act only while it is pending.\<close>

definition settle :: "nat \<Rightarrow> ('a body, 'a rejection) promise \<Rightarrow> 'a channel \<Rightarrow> 'a channel" where
  "settle p result ch =
     (case promises ch p of
        Some Pending \<Rightarrow> ch\<lparr>promises := (promises ch)(p \<mapsto> result)\<rparr>
      | _ \<Rightarrow> ch)"

definition clearTimeout :: "nat \<Rightarrow> 'a channel \<Rightarrow> 'a channel" where
  "clearTimeout t ch = ch\<lparr>timers := (timers ch)(t := None)\<rparr>"

text \<open>
  The timer \<open>t\<close> fires: possible only while it is armed. Its callback is
  \<^verbatim>\<open>reject(new Error(`timed out after ${TIMEOUT} ms`))\<close> and nothing else.
\<close>

definition timeout_fires :: "nat \<Rightarrow> 'a channel \<Rightarrow> 'a channel option" where
  "timeout_fires t ch =
     (case timers ch t of
        None \<Rightarrow> None
      | Some p \<Rightarrow>
          Some (settle p (Rejected (Plain (Error ''timed out after 3600000 ms'')))
                  (clearTimeout t ch)))"

text \<open>
  \<^verbatim>\<open>respond(n, isError, body)\<close> sends the response frame; a failure of \<^verbatim>\<open>send\<close> is caught
  and dropped there, so nothing of \<^verbatim>\<open>messageHandler\<close> depends on it.
\<close>

definition respond :: "nat \<Rightarrow> bool \<Rightarrow> 'a body \<Rightarrow> 'a channel \<Rightarrow> 'a channel" where
  "respond k isError body ch = send (RESPONSE k body isError) ch"

definition emitter_emit :: "string \<Rightarrow> 'a emission \<Rightarrow> 'a channel \<Rightarrow> 'a channel" where
  "emitter_emit name m ch = ch\<lparr>emitted := emitted ch @ [(name, m)]\<rparr>"

text \<open>
  \<^verbatim>\<open>messageHandler\<close>. A handler is given by what awaiting it yields: the value it returns
  or the error it throws. The result is \<open>Inl\<close> when the handler function itself throws
  (\<^verbatim>\<open>unexpected response message\<close>).
\<close>

definition messageHandler :: "'a channel \<Rightarrow> 'a raw_message \<Rightarrow> thrown + 'a channel" where
  "messageHandler ch m =
    (if rm_source m = ''MessageChannel'' then
       (case rm_message m of
          REQUEST key body \<Rightarrow>
            (case (case handlerRegistry ch key of
                     None \<Rightarrow> Inl (Error (''no handler for '' @ key))
                   | Some requestHandler \<Rightarrow> requestHandler body) of
               Inr response \<Rightarrow>
                 Inr (emitter_emit ''message'' (Frame m)
                        (case rm_n m of Some k \<Rightarrow> respond k False response ch | None \<Rightarrow> ch))
             | Inl e \<Rightarrow>
                 Inr (emitter_emit ''message'' (Frame m)
                        (case rm_n m of
                           Some k \<Rightarrow> respond k True (Stack e) (ch\<lparr>logged := logged ch @ [e]\<rparr>)
                         | None \<Rightarrow> ch\<lparr>logged := logged ch @ [e]\<rparr>)))
        | RESPONSE requestN body isError \<Rightarrow>
            (case responseHandlers ch requestN of
               None \<Rightarrow> Inl (Error ''unexpected response message'')
             | Some responseHandler \<Rightarrow>
                 (let ch1 = ch\<lparr>responseHandlers := (responseHandlers ch)(requestN := None)\<rparr>;
                      ch2 = clearTimeout (rh_timeout responseHandler) ch1;
                      ch3 = (if isError
                             then settle (rh_promise responseHandler) (Rejected (ResponseError body)) ch2
                             else settle (rh_promise responseHandler) (Fulfilled body) ch2)
                  in Inr (emitter_emit ''message'' (Frame m) ch3)))
        | OTHER type \<Rightarrow> Inr (emitter_emit ''message'' (Frame m) (emitter_emit type (Inner (OTHER type)) ch)))
     else Inr (emitter_emit ''message'' (Frame m) ch))"

text \<open>The response frame as \<^verbatim>\<open>respond\<close> sends it.\<close>

definition response_frame :: "nat \<Rightarrow> 'a body \<Rightarrow> bool \<Rightarrow> 'a raw_message" where
  "response_frame k b isError =
     \<lparr>rm_source = ''MessageChannel'', rm_n = None, rm_message = RESPONSE k b isError\<rparr>"

section \<open>Broadcast over the connections of a host (\<^verbatim>\<open>hostDiscoverableMessageChannel\<close>)\<close>

text \<open>
  \<^verbatim>\<open>Promise.all\<close> over promises given with the time at which each settles: it rejects with
  the reason of the first promise to reject, fulfils with the values in the order of the
  array when all are fulfilled, and stays pending otherwise.
\<close>

fun earliest :: "nat \<times> 'e \<Rightarrow> (nat \<times> 'e) list \<Rightarrow> nat \<times> 'e" where
  "earliest r [] = r"
| "earliest r (x # xs) = earliest (if fst x < fst r then x else r) xs"

fun rejections :: "(nat \<times> ('v, 'e) promise) list \<Rightarrow> (nat \<times> 'e) list" where
  "rejections [] = []"
| "rejections ((t, Rejected e) # ps) = (t, e) # rejections ps"
| "rejections (_ # ps) = rejections ps"

fun fulfilments :: "(nat \<times> ('v, 'e) promise) list \<Rightarrow> 'v list option" where
  "fulfilments [] = Some []"
| "fulfilments ((t, Fulfilled x) # ps) = map_option (Cons x) (fulfilments ps)"
| "fulfilments (_ # ps) = None"

definition promise_all :: "(nat \<times> ('v, 'e) promise) list \<Rightarrow> ('v list, 'e) promise" where
  "promise_all ps =
     (case rejections ps of
        r # rs \<Rightarrow> Rejected (snd (earliest r rs))
      | [] \<Rightarrow> (case fulfilments ps of Some xs \<Rightarrow> Fulfilled xs | None \<Rightarrow> Pending))"

text \<open>
  One connection of the host: its own channel, the channel at the client's end of the
  socket, and the time the answer takes. \<open>exchange\<close> is \<^verbatim>\<open>child.handlers.invoke(key, body)\<close>,
  that is \<^verbatim>\<open>request\<close>, followed to the state of its promise: the request frame reaches the
  client's \<^verbatim>\<open>messageHandler\<close>, and the frames the client sends reach the host's.
\<close>

record 'a connection =
  local_end :: "'a channel"
  peer_end :: "'a channel"
  latency :: nat

fun deliver :: "'a raw_message list \<Rightarrow> 'a channel \<Rightarrow> thrown + 'a channel" where
  "deliver [] ch = Inr ch"
| "deliver (m # ms) ch =
     (case messageHandler ch m of Inl e \<Rightarrow> Inl e | Inr ch1 \<Rightarrow> deliver ms ch1)"

definition exchange :: "'a connection \<Rightarrow> string \<Rightarrow> 'a body \<Rightarrow> ('a body, 'a rejection) promise" where
  "exchange c key body =
     (let (k, local1) = request key body (local_end c)
      in case deliver (drop (length (sent (local_end c))) (sent local1)) (peer_end c) of
           Inl e \<Rightarrow> Pending
         | Inr peer1 \<Rightarrow>
             (case deliver (drop (length (sent (peer_end c))) (sent peer1)) local1 of
                Inl e \<Rightarrow> Pending
              | Inr local2 \<Rightarrow> (case promises local2 k of Some p \<Rightarrow> p | None \<Rightarrow> Pending)))"

text \<open>
  \<^verbatim>\<open>invoke(handlerKey, requestMessage) { return Promise.all(Array.from(connections,
  child => child.handlers.invoke(handlerKey, requestMessage))) }\<close>, the connections in the
  iteration order of the set.
\<close>

definition broadcast_invoke ::
  "'a connection list \<Rightarrow> string \<Rightarrow> 'a body \<Rightarrow> ('a body list, 'a rejection) promise" where
  "broadcast_invoke connections key body =
     promise_all (map (\<lambda>child. (latency child, exchange child key body)) connections)"

text \<open>
  A connection for the examples: the host's channel is new, and the client's registry has
  the one handler \<open>f\<close> under the key \<^verbatim>\<open>k\<close>.
\<close>

definition client_with :: "(nat body \<Rightarrow> thrown + nat body) \<Rightarrow> nat \<Rightarrow> nat connection" where
  "client_with f t =
     \<lparr>local_end = new_channel Map.empty, peer_end = new_channel (Map.empty(''k'' \<mapsto> f)), latency = t\<rparr>"

section \<open>The global context store (\<^verbatim>\<open>global-context.ts\<close>)\<close>

subsection \<open>File names\<close>

text \<open>
  An entry is the file \<^verbatim>\<open>`${process.pid}-${++i}.json`\<close>; \<^verbatim>\<open>purge\<close> reads the process id back
  with \<^verbatim>\<open>/^(\d+)-\d+\.json$/\<close> and \<^verbatim>\<open>parseInt(pid, 10)\<close>. Numbers are printed in decimal.
\<close>

definition digit_char :: "nat \<Rightarrow> char" where
  "digit_char d = char_of (48 + d)"

fun show_nat :: "nat \<Rightarrow> string" where
  "show_nat n = (if n < 10 then [digit_char n] else show_nat (n div 10) @ [digit_char (n mod 10)])"

declare show_nat.simps [simp del]

definition is_digit :: "char \<Rightarrow> bool" where
  "is_digit c = (48 \<le> (of_char c :: nat) \<and> (of_char c :: nat) \<le> 57)"

definition parseInt :: "string \<Rightarrow> nat" where
  "parseInt s = foldl (\<lambda>a c. 10 * a + ((of_char c :: nat) - 48)) 0 (takeWhile is_digit s)"

text \<open>
  \<^verbatim>\<open>jsonFilename.exec(filename)\<close>: \<open>None\<close> for \<^verbatim>\<open>null\<close>, else the first group. The digits of
  a group cannot run into the character that must follow it, so the greedy match is the
  only one.
\<close>

definition jsonFilename_exec :: "string \<Rightarrow> string option" where
  "jsonFilename_exec filename =
     (let pid = takeWhile is_digit filename;
          rest = dropWhile is_digit filename
      in if pid \<noteq> [] \<and> take 1 rest = ''-''
            \<and> takeWhile is_digit (drop 1 rest) \<noteq> []
            \<and> dropWhile is_digit (drop 1 rest) = ''.json''
         then Some pid else None)"

definition entry_filename :: "nat \<Rightarrow> nat \<Rightarrow> string" where
  "entry_filename pid i = show_nat pid @ ''-'' @ show_nat i @ ''.json''"

subsection \<open>The world of one key\<close>

text \<open>
  The store is modelled for one key: the files of \<^verbatim>\<open>path.join(globalContextDir, key)\<close>, the
  clock, the process table, and, for the process that watches, the watcher objects, the
  registry \<^verbatim>\<open>globalContextWatchers\<close> (its entry for the key), the queue of \<^verbatim>\<open>setImmediate\<close>
  callbacks and the calls of the subscribers' callbacks. A file holds JSON text: its
  content is the value \<^verbatim>\<open>JSON.parse\<close> gives for it, or \<open>None\<close> when the text does not parse;
  \<^verbatim>\<open>JSON.stringify\<close> of a context is taken to parse back to the context. The only failure of
  a filesystem call in the model is \<^verbatim>\<open>ENOENT\<close>.
\<close>

datatype kill_result = Alive | ESRCH | EPERM

record 'c entry_file =
  f_mtime :: nat
  f_content :: "'c option"

datatype gc_error = JsonSyntaxError | UnexpectedFilename string

text \<open>
  A watcher object: the closure state of \<^verbatim>\<open>getGlobalContextWatcher\<close>. \<^verbatim>\<open>subscribers\<close> is a
  \<^verbatim>\<open>Set\<close> and \<^verbatim>\<open>configByFileName\<close> a \<^verbatim>\<open>Map\<close>, both in insertion order; subscribers are
  named by numbers. \<open>lastCalled\<close> belongs to the throttle around \<^verbatim>\<open>purge\<close>.
\<close>

record 'c watcher =
  subscribers :: "nat list"
  configByFileName :: "(string \<times> 'c) list"
  lastCalled :: nat
  watch_closed :: bool

datatype immediate = EmitChange nat | EmitError nat gc_error | NotifySubscriber nat nat

text \<open>
  The state of one call of \<^verbatim>\<open>getAllGlobalContexts\<close>: the watcher it subscribed to, whether
  its timer is armed, and its promise, whose rejection reason is \<open>None\<close> for \<^verbatim>\<open>undefined\<close>.
\<close>

record 'c getall =
  ga_watcher :: nat
  ga_timer :: bool
  ga_promise :: "('c list, gc_error option) promise"

datatype 'c action =
    Unsubscribe nat
  | Resolve nat "'c list"
  | Reject nat "gc_error option"

record 'c world =
  g_now :: nat
  g_uptime :: nat
  g_kill :: "nat \<Rightarrow> kill_result"
  g_dir :: "(string \<times> 'c entry_file) list"
  g_watchers :: "nat \<Rightarrow> 'c watcher option"
  g_next_watcher :: nat
  globalContextWatchers :: "nat option"
  g_immediates :: "immediate list"
  g_delivered :: "(nat \<times> 'c list) list"
  g_errors :: "(nat \<times> gc_error) list"
  g_getall :: "nat \<Rightarrow> 'c getall option"
  g_actions :: "'c action list"

subsection \<open>\<^verbatim>\<open>exposeGlobalContext\<close>\<close>

text \<open>
  \<^verbatim>\<open>exposeGlobalContext\<close> in the process \<open>pid\<close> whose module counter is \<open>i\<close>: the file
  \<^verbatim>\<open>`${process.pid}-${++i}.json`\<close> is written (created, or overwritten in place). It returns
  the name of the file, which \<^verbatim>\<open>hideGlobalContext\<close> unlinks, the counter and the world.
\<close>

definition exposeGlobalContext :: "nat \<Rightarrow> nat \<Rightarrow> 'c \<Rightarrow> 'c world \<Rightarrow> string \<times> nat \<times> 'c world" where
  "exposeGlobalContext pid i context' w =
     (let contextPath = entry_filename pid (Suc i)
      in (contextPath, Suc i,
          w\<lparr>g_dir := AList.update contextPath \<lparr>f_mtime = g_now w, f_content = Some context'\<rparr> (g_dir w)\<rparr>))"

definition hideGlobalContext :: "string \<Rightarrow> 'c world \<Rightarrow> 'c world" where
  "hideGlobalContext contextPath w = w\<lparr>g_dir := AList.delete contextPath (g_dir w)\<rparr>"

subsection \<open>The watcher\<close>

definition update_watcher :: "nat \<Rightarrow> ('c watcher \<Rightarrow> 'c watcher) \<Rightarrow> 'c world \<Rightarrow> 'c world" where
  "update_watcher wid f w =
     (case g_watchers w wid of
        None \<Rightarrow> w
      | Some x \<Rightarrow> w\<lparr>g_watchers := (g_watchers w)(wid \<mapsto> f x)\<rparr>)"

definition configs_of :: "nat \<Rightarrow> 'c world \<Rightarrow> (string \<times> 'c) list" where
  "configs_of wid w = (case g_watchers w wid of None \<Rightarrow> [] | Some x \<Rightarrow> configByFileName x)"

definition subscribers_of :: "nat \<Rightarrow> 'c world \<Rightarrow> nat list" where
  "subscribers_of wid w = (case g_watchers w wid of None \<Rightarrow> [] | Some x \<Rightarrow> subscribers x)"

text \<open>\<^verbatim>\<open>handleUnexpectedError\<close> and \<^verbatim>\<open>emit\<close> only queue a \<^verbatim>\<open>setImmediate\<close> callback.\<close>

definition handleUnexpectedError :: "nat \<Rightarrow> gc_error \<Rightarrow> 'c world \<Rightarrow> 'c world" where
  "handleUnexpectedError wid err w = w\<lparr>g_immediates := g_immediates w @ [EmitError wid err]\<rparr>"

definition emit :: "nat \<Rightarrow> 'c world \<Rightarrow> 'c world" where
  "emit wid w = w\<lparr>g_immediates := g_immediates w @ [EmitChange wid]\<rparr>"

text \<open>
  \<^verbatim>\<open>eventTriggered(filename)\<close>: the file is read and parsed into the cache; a missing file
  (\<^verbatim>\<open>ENOENT\<close>) is deleted from the cache, any other error is reported; then \<^verbatim>\<open>emit()\<close>.
\<close>

definition eventTriggered :: "nat \<Rightarrow> string \<Rightarrow> 'c world \<Rightarrow> 'c world" where
  "eventTriggered wid filename w =
     emit wid
       (case map_of (g_dir w) filename of
          None \<Rightarrow>
            update_watcher wid (\<lambda>x. x\<lparr>configByFileName := AList.delete filename (configByFileName x)\<rparr>) w
        | Some f \<Rightarrow>
            (case f_content f of
               None \<Rightarrow> handleUnexpectedError wid JsonSyntaxError w
             | Some c \<Rightarrow>
                 update_watcher wid
                   (\<lambda>x. x\<lparr>configByFileName := AList.update filename c (configByFileName x)\<rparr>) w))"

text \<open>
  \<^verbatim>\<open>readAll\<close>: every file of the directory older than the boot time
  (\<^verbatim>\<open>Date.now() - os.uptime() * 1000\<close>) is unlinked, every other one is loaded.
\<close>

definition minTime :: "'c world \<Rightarrow> nat" where
  "minTime w = g_now w - g_uptime w * 1000"

fun readAll_each :: "nat \<Rightarrow> nat \<Rightarrow> string list \<Rightarrow> 'c world \<Rightarrow> 'c world" where
  "readAll_each wid t [] w = w"
| "readAll_each wid t (basename # rest) w =
     readAll_each wid t rest
       (case map_of (g_dir w) basename of
          None \<Rightarrow> w
        | Some f \<Rightarrow>
            if f_mtime f < t then w\<lparr>g_dir := AList.delete basename (g_dir w)\<rparr>
            else eventTriggered wid basename w)"

definition readAll :: "nat \<Rightarrow> 'c world \<Rightarrow> 'c world" where
  "readAll wid w = readAll_each wid (minTime w) (map fst (g_dir w)) w"

text \<open>
  The body of \<^verbatim>\<open>purge\<close> for one entry of the cache. \<^verbatim>\<open>process.kill(pid, 0)\<close> returns true
  for a live process and throws otherwise; the process counts as running when it is
  alive or the error is \<^verbatim>\<open>EPERM\<close>. The entry of a process that is not running is unlinked
  and deleted from the cache; when the file is already gone (\<^verbatim>\<open>ENOENT\<close>) the cache keeps
  the entry. The result says whether \<^verbatim>\<open>purged\<close> was set.
\<close>

definition purge_entry :: "nat \<Rightarrow> string \<Rightarrow> 'c world \<Rightarrow> bool \<times> 'c world" where
  "purge_entry wid filename w =
     (case jsonFilename_exec filename of
        None \<Rightarrow> (False, handleUnexpectedError wid (UnexpectedFilename filename) w)
      | Some pid \<Rightarrow>
          (let running = (case g_kill w (parseInt pid) of
                            Alive \<Rightarrow> True | EPERM \<Rightarrow> True | ESRCH \<Rightarrow> False)
           in if running then (False, w)
              else (case map_of (g_dir w) filename of
                      None \<Rightarrow> (False, w)
                    | Some f \<Rightarrow>
                        (True,
                         update_watcher wid
                           (\<lambda>x. x\<lparr>configByFileName := AList.delete filename (configByFileName x)\<rparr>)
                           (w\<lparr>g_dir := AList.delete filename (g_dir w)\<rparr>)))))"

fun purge_each :: "nat \<Rightarrow> string list \<Rightarrow> bool \<times> 'c world \<Rightarrow> bool \<times> 'c world" where
  "purge_each wid [] r = r"
| "purge_each wid (filename # rest) (purged, w) =
     (let (p, w1) = purge_entry wid filename w in purge_each wid rest (purged \<or> p, w1))"

text \<open>
  \<^verbatim>\<open>purge = throttle(..., 5000)\<close>: the body runs when at least 5000 ms have passed since the
  last run; it emits when an entry was purged.
\<close>

definition purge :: "nat \<Rightarrow> 'c world \<Rightarrow> 'c world" where
  "purge wid w =
     (case g_watchers w wid of
        None \<Rightarrow> w
      | Some x \<Rightarrow>
          if g_now w - lastCalled x \<ge> 5000 then
            (let w1 = update_watcher wid (\<lambda>x. x\<lparr>lastCalled := g_now w\<rparr>) w;
                 (purged, w2) = purge_each wid (map fst (configByFileName x)) (False, w1)
             in if purged then emit wid w2 else w2)
          else w)"

text \<open>
  \<^verbatim>\<open>getGlobalContextWatcher\<close>: the registered watcher of the key, or a new one, which reads
  the directory, purges, emits and is registered.
\<close>

definition getGlobalContextWatcher :: "'c world \<Rightarrow> nat \<times> 'c world" where
  "getGlobalContextWatcher w =
     (case globalContextWatchers w of
        Some existingWatcher \<Rightarrow> (existingWatcher, w)
      | None \<Rightarrow>
          (let wid = g_next_watcher w;
               w1 = w\<lparr>g_watchers := (g_watchers w)(wid \<mapsto>
                         \<lparr>subscribers = [], configByFileName = [], lastCalled = 0, watch_closed = False\<rparr>),
                       g_next_watcher := Suc wid\<rparr>;
               w2 = emit wid (purge wid (readAll wid w1))
           in (wid, w2\<lparr>globalContextWatchers := Some wid\<rparr>)))"

text \<open>
  \<^verbatim>\<open>subscribe\<close> adds the subscriber and queues its first notification; \<^verbatim>\<open>unsubscribe\<close>
  deletes it and, when no subscriber is left, deletes the registry entry of the key and
  closes the directory watch. \<^verbatim>\<open>subscribers\<close> is a \<^verbatim>\<open>Set\<close>, iterated in the order of
  insertion: a new subscriber goes to the end, one that is there keeps its place.
\<close>

definition subscribe :: "nat \<Rightarrow> nat \<Rightarrow> 'c world \<Rightarrow> 'c world" where
  "subscribe wid subscriber w =
     (update_watcher wid (\<lambda>x. x\<lparr>subscribers := (if subscriber \<in> set (subscribers x) then subscribers x
                                                 else subscribers x @ [subscriber])\<rparr>) w)
       \<lparr>g_immediates := g_immediates w @ [NotifySubscriber wid subscriber]\<rparr>"

definition unsubscribe :: "nat \<Rightarrow> nat \<Rightarrow> 'c world \<Rightarrow> 'c world" where
  "unsubscribe wid subscriber w =
     (let w1 = (update_watcher wid (\<lambda>x. x\<lparr>subscribers := removeAll subscriber (subscribers x)\<rparr>) w)
                 \<lparr>g_actions := g_actions w @ [Unsubscribe subscriber]\<rparr>
      in if subscribers_of wid w1 = []
         then (update_watcher wid (\<lambda>x. x\<lparr>watch_closed := True\<rparr>) w1)\<lparr>globalContextWatchers := None\<rparr>
         else w1)"

definition watchGlobalContext :: "nat \<Rightarrow> 'c world \<Rightarrow> nat \<times> 'c world" where
  "watchGlobalContext subscriber w =
     (let (wid, w1) = getGlobalContextWatcher w in (wid, subscribe wid subscriber w1))"

subsection \<open>\<^verbatim>\<open>getAllGlobalContexts\<close> and the callbacks\<close>

definition ga_settle :: "nat \<Rightarrow> ('c list, gc_error option) promise \<Rightarrow> 'c world \<Rightarrow> 'c world" where
  "ga_settle s result w =
     (case g_getall w s of
        None \<Rightarrow> w
      | Some ga \<Rightarrow>
          (case ga_promise ga of
             Pending \<Rightarrow> w\<lparr>g_getall := (g_getall w)(s \<mapsto> ga\<lparr>ga_promise := result\<rparr>)\<rparr>
           | _ \<Rightarrow> w))"

definition ga_resolve :: "nat \<Rightarrow> 'c list \<Rightarrow> 'c world \<Rightarrow> 'c world" where
  "ga_resolve s configs w = ga_settle s (Fulfilled configs) (w\<lparr>g_actions := g_actions w @ [Resolve s configs]\<rparr>)"

definition ga_reject :: "nat \<Rightarrow> gc_error option \<Rightarrow> 'c world \<Rightarrow> 'c world" where
  "ga_reject s reason w = ga_settle s (Rejected reason) (w\<lparr>g_actions := g_actions w @ [Reject s reason]\<rparr>)"

definition ga_clearTimeout :: "nat \<Rightarrow> 'c world \<Rightarrow> 'c world" where
  "ga_clearTimeout s w =
     (case g_getall w s of
        None \<Rightarrow> w
      | Some ga \<Rightarrow> w\<lparr>g_getall := (g_getall w)(s \<mapsto> ga\<lparr>ga_timer := False\<rparr>)\<rparr>)"

text \<open>
  \<^verbatim>\<open>getAllGlobalContexts\<close> arms a timer of 500 ms and subscribes. Its subscriber's
  \<^verbatim>\<open>onChange\<close> is \<^verbatim>\<open>unwatch(); clearTimeout(timeout); resolve(configs)\<close>, its \<^verbatim>\<open>onError\<close> is
  \<^verbatim>\<open>reject\<close>, and the callback of the timer is \<^verbatim>\<open>unwatch(); reject()\<close>. The callbacks of
  any other subscriber are recorded in \<open>g_delivered\<close> and \<open>g_errors\<close>.
\<close>

definition getAllGlobalContexts :: "nat \<Rightarrow> 'c world \<Rightarrow> 'c world" where
  "getAllGlobalContexts s w =
     (let (wid, w1) = watchGlobalContext s w
      in w1\<lparr>g_getall := (g_getall w1)(s \<mapsto> \<lparr>ga_watcher = wid, ga_timer = True, ga_promise = Pending\<rparr>)\<rparr>)"

definition onChange :: "nat \<Rightarrow> 'c list \<Rightarrow> 'c world \<Rightarrow> 'c world" where
  "onChange s configs w =
     (case g_getall w s of
        None \<Rightarrow> w\<lparr>g_delivered := g_delivered w @ [(s, configs)]\<rparr>
      | Some ga \<Rightarrow> ga_resolve s configs (ga_clearTimeout s (unsubscribe (ga_watcher ga) s w)))"

definition onError :: "nat \<Rightarrow> gc_error \<Rightarrow> 'c world \<Rightarrow> 'c world" where
  "onError s err w =
     (case g_getall w s of
        None \<Rightarrow> w\<lparr>g_errors := g_errors w @ [(s, err)]\<rparr>
      | Some ga \<Rightarrow> ga_reject s (Some err) w)"

definition getall_timeout_fires :: "nat \<Rightarrow> 'c world \<Rightarrow> 'c world option" where
  "getall_timeout_fires s w =
     (case g_getall w s of
        None \<Rightarrow> None
      | Some ga \<Rightarrow>
          if ga_timer ga
          then Some (ga_reject s None (unsubscribe (ga_watcher ga) s (ga_clearTimeout s w)))
          else None)"

text \<open>
  One \<^verbatim>\<open>setImmediate\<close> callback runs. \<^verbatim>\<open>for (const subscriber of subscribers)\<close> visits the
  subscribers that are still in the set when their turn comes.
\<close>

fun for_subscribers :: "nat \<Rightarrow> (nat \<Rightarrow> 'c world \<Rightarrow> 'c world) \<Rightarrow> nat list \<Rightarrow> 'c world \<Rightarrow> 'c world" where
  "for_subscribers wid f [] w = w"
| "for_subscribers wid f (s # rest) w =
     for_subscribers wid f rest (if s \<in> set (subscribers_of wid w) then f s w else w)"

definition run_immediate :: "'c world \<Rightarrow> 'c world" where
  "run_immediate w =
     (case g_immediates w of
        [] \<Rightarrow> w
      | cb # rest \<Rightarrow>
          (let w1 = w\<lparr>g_immediates := rest\<rparr>
           in case cb of
                EmitChange wid \<Rightarrow>
                  for_subscribers wid (\<lambda>s. onChange s (map snd (configs_of wid w1)))
                    (subscribers_of wid w1) w1
              | EmitError wid err \<Rightarrow>
                  for_subscribers wid (\<lambda>s. onError s err) (subscribers_of wid w1) w1
              | NotifySubscriber wid s \<Rightarrow> onChange s (map snd (configs_of wid w1)) w1))"

text \<open>The callbacks queued so far run, in the order of the queue.\<close>

fun run_immediates :: "nat \<Rightarrow> 'c world \<Rightarrow> 'c world" where
  "run_immediates 0 w = w"
| "run_immediates (Suc n) w = run_immediates n (run_immediate w)"

definition notifications_of :: "nat \<Rightarrow> 'c world \<Rightarrow> 'c list list" where
  "notifications_of s w = map snd (filter (\<lambda>(s', _). s' = s) (g_delivered w))"

text \<open>
  What happens around the process that watches: seconds pass (the clock is in
  milliseconds, \<^verbatim>\<open>os.uptime()\<close> in seconds), and a process dies, after which
  \<^verbatim>\<open>process.kill(pid, 0)\<close> throws \<^verbatim>\<open>ESRCH\<close>.
\<close>

definition elapse :: "nat \<Rightarrow> 'c world \<Rightarrow> 'c world" where
  "elapse seconds w = w\<lparr>g_now := g_now w + seconds * 1000, g_uptime := g_uptime w + seconds\<rparr>"

definition process_dies :: "nat \<Rightarrow> 'c world \<Rightarrow> 'c world" where
  "process_dies pid w = w\<lparr>g_kill := (g_kill w)(pid := ESRCH)\<rparr>"

text \<open>
  A world for the examples: an empty directory, no watcher, nothing queued, and one live
  process, 4242.
\<close>

definition fresh_world :: "(string \<times> nat) list world" where
  "fresh_world =
     \<lparr>g_now = 1700000000000, g_uptime = 3600, g_kill = (\<lambda>_. ESRCH)(4242 := Alive), g_dir = [],
      g_watchers = Map.empty, g_next_watcher = 0, globalContextWatchers = None,
      g_immediates = [], g_delivered = [], g_errors = [], g_getall = Map.empty, g_actions = []\<rparr>"

section \<open>Discovery of a host (\<^verbatim>\<open>discoverMessageChannel\<close>)\<close>

text \<open>
  \<^verbatim>\<open>discoverMessageChannel\<close> is a set of callbacks around shared variables: the callback of
  the watch, the callbacks of the candidate sockets, and the callback of the timer. Each
  runs to its end before the next starts, so the function is modelled by the state of
  its variables and one step per callback. A socket is connecting, open or closed.
  A task of the queue explores the hosts of one snapshot (the ports of the configs with
  the key), or is the task the timer queues.
\<close>

datatype socket_state = Connecting | Opened | Closed

datatype task = Explore "nat list" | TimedOut

text \<open>
  \<open>queue\<close> and \<open>running\<close> are the variables of \<^verbatim>\<open>createAsyncQueue\<close>; \<open>aborted\<close> says that
  its loop has been left by an exception, which leaves \<open>running\<close> set for ever.
  \<open>hostSelected\<close> and \<open>inflight\<close> belong to the task that was started last: its flag, and
  its sockets whose \<^verbatim>\<open>createOpenSocket\<close> promise is still pending. The promise returned to
  the caller is fulfilled with the channel over a socket, named by the socket. \<open>d_key\<close>
  and \<open>timeoutMilliseconds\<close> are the arguments of the call.
\<close>

record discovery =
  d_key :: string
  timeoutMilliseconds :: nat
  finalized :: bool
  queue :: "task list"
  running :: bool
  aborted :: bool
  hostSelected :: bool
  inflight :: "nat list"
  d_sockets :: "nat \<Rightarrow> socket_state option"
  d_next_socket :: nat
  d_outcome :: "(nat, thrown) promise"
  d_watching :: bool
  d_timer :: bool

definition discovery_start :: "string \<Rightarrow> nat \<Rightarrow> discovery" where
  "discovery_start key ms =
     \<lparr>d_key = key, timeoutMilliseconds = ms, finalized = False, queue = [], running = False,
      aborted = False, hostSelected = False, inflight = [],
      d_sockets = Map.empty, d_next_socket = 0, d_outcome = Pending, d_watching = True,
      d_timer = True\<rparr>"

text \<open>\<^verbatim>\<open>finalized = true; queue.clear(); unwatch(); clearTimeout(timeout)\<close>\<close>

definition finalize :: "discovery \<Rightarrow> discovery" where
  "finalize d = d\<lparr>finalized := True, queue := [], d_watching := False, d_timer := False\<rparr>"

definition d_settle :: "(nat, thrown) promise \<Rightarrow> discovery \<Rightarrow> discovery" where
  "d_settle r d = (case d_outcome d of Pending \<Rightarrow> d\<lparr>d_outcome := r\<rparr> | _ \<Rightarrow> d)"

text \<open>The task of the timer: \<^verbatim>\<open>if (!finalized) { finalize(); reject(new Error(...)) }\<close>\<close>

definition timed_out :: "nat \<Rightarrow> thrown" where
  "timed_out ms =
     Error (''Error: discovery of host message channel timed out after '' @ show_nat ms
            @ '' milliseconds'')"

definition timeout_task :: "discovery \<Rightarrow> discovery" where
  "timeout_task d =
     (if \<not> finalized d
      then d_settle (Rejected (timed_out (timeoutMilliseconds d))) (finalize d)
      else d)"

text \<open>
  \<^verbatim>\<open>new WebSocket(`ws://localhost:${port}`)\<close> throws for a port that is no port number.
  The configs are read from files, so the port of a config may be anything; the model
  has the numbers above 65535 for every port the constructor refuses.
\<close>

definition valid_port :: "nat \<Rightarrow> bool" where
  "valid_port p \<longleftrightarrow> p \<le> 65535"

text \<open>
  An exploring task starts: \<^verbatim>\<open>createOpenSocket\<close> makes one connecting socket for each
  candidate whose port the constructor accepts, and the task waits for all of them
  (\<^verbatim>\<open>Promise.all\<close>).
\<close>

definition start_explore :: "nat list \<Rightarrow> discovery \<Rightarrow> discovery" where
  "start_explore ports d =
     (let new = [d_next_socket d ..< d_next_socket d + length (filter valid_port ports)]
      in d\<lparr>hostSelected := False, inflight := new,
           d_sockets := (\<lambda>s. if s \<in> set new then Some Connecting else d_sockets d s),
           d_next_socket := d_next_socket d + length (filter valid_port ports)\<rparr>)"

text \<open>
  When the constructor throws for a candidate, the promise of its \<^verbatim>\<open>createOpenSocket\<close> is
  rejected and so is \<^verbatim>\<open>Promise.all\<close>: the \<^verbatim>\<open>await\<close> in the loop of the queue throws, the
  loop is left with \<open>running\<close> set, and the \<^verbatim>\<open>catch\<close> of the snapshot that started the loop
  runs: \<^verbatim>\<open>finalize(); reject(new Error(`Caught unexpected error ...`))\<close>. The text of the
  error ends with the message and the stack of the error caught, which are left out
  here. The sockets of the other candidates stay as they are, with their \<^verbatim>\<open>then\<close>
  callbacks.
\<close>

definition caught_unexpected :: thrown where
  "caught_unexpected = Error ''Caught unexpected error when attempting to discover host:''"

definition task_throws :: "discovery \<Rightarrow> discovery" where
  "task_throws d = d_settle (Rejected caught_unexpected) (finalize (d\<lparr>aborted := True\<rparr>))"

text \<open>
  \<^verbatim>\<open>while (queue.length) { await queue.shift()!(); } running = false\<close>, from the head of the
  loop to the next point where it waits: the task of the timer and a task without
  candidates end at once, a task with candidates is awaited, and a task that throws
  ends the loop.
\<close>

function run_queue :: "discovery \<Rightarrow> discovery" where
  "run_queue d =
     (case queue d of
        [] \<Rightarrow> d\<lparr>running := False\<rparr>
      | TimedOut # rest \<Rightarrow> run_queue (timeout_task (d\<lparr>queue := rest\<rparr>))
      | Explore ports # rest \<Rightarrow>
          if ports = [] then run_queue (d\<lparr>queue := rest\<rparr>)
          else if list_all valid_port ports then start_explore ports (d\<lparr>queue := rest\<rparr>)
          else task_throws (start_explore ports (d\<lparr>queue := rest\<rparr>)))"
  by pat_completeness auto
termination
  by (relation "measure (\<lambda>d. length (queue d))")
     (auto simp: timeout_task_def finalize_def d_settle_def split: promise.splits)

declare run_queue.simps [simp del]

text \<open>\<^verbatim>\<open>queue.push(cb); if (!running) { running = true; ... }\<close>\<close>

definition enqueue :: "task \<Rightarrow> discovery \<Rightarrow> discovery" where
  "enqueue t d =
     (let d1 = d\<lparr>queue := queue d @ [t]\<rparr>
      in if running d1 then d1 else run_queue (d1\<lparr>running := True\<rparr>))"

text \<open>
  The callbacks. A snapshot of configs (key and port) arrives; a connecting socket opens
  (\<^verbatim>\<open>createOpenSocket\<close> resolves with it, and the \<^verbatim>\<open>then\<close> callback of the task runs); a
  connecting socket fails or runs into its own timeout of 65 ms (it is closed, and
  \<^verbatim>\<open>createOpenSocket\<close> resolves with \<^verbatim>\<open>null\<close>); the timer of the discovery fires. When the
  last socket of the awaited task has settled, the loop of the queue goes on, unless it
  has been left by an exception. A callback that cannot occur in a state (a socket that
  is not connecting, a cleared timer) leaves it unchanged.
\<close>

datatype devent =
    Snapshot "(string \<times> nat) list"
  | SocketOpens nat
  | SocketFails nat
  | TimeoutFires

definition task_settled :: "discovery \<Rightarrow> discovery" where
  "task_settled d = (if inflight d = [] \<and> \<not> aborted d then run_queue d else d)"

definition step :: "discovery \<Rightarrow> devent \<Rightarrow> discovery" where
  "step d ev =
     (case ev of
        Snapshot configs \<Rightarrow>
          if finalized d then d
          else enqueue (Explore (map snd (filter (\<lambda>config. fst config = d_key d) configs))) d
      | SocketOpens s \<Rightarrow>
          if d_sockets d s = Some Connecting \<and> s \<in> set (inflight d) then
            (let d1 = d\<lparr>inflight := removeAll s (inflight d)\<rparr>
             in task_settled
                  (if hostSelected d1 then d1\<lparr>d_sockets := (d_sockets d1)(s \<mapsto> Closed)\<rparr>
                   else d_settle (Fulfilled s)
                          (finalize (d1\<lparr>d_sockets := (d_sockets d1)(s \<mapsto> Opened),
                                        hostSelected := True\<rparr>))))
          else d
      | SocketFails s \<Rightarrow>
          if d_sockets d s = Some Connecting \<and> s \<in> set (inflight d) then
            task_settled (d\<lparr>inflight := removeAll s (inflight d),
                            d_sockets := (d_sockets d)(s \<mapsto> Closed)\<rparr>)
          else d
      | TimeoutFires \<Rightarrow>
          if d_timer d then enqueue TimedOut (d\<lparr>d_timer := False\<rparr>) else d)"

definition run_events :: "discovery \<Rightarrow> devent list \<Rightarrow> discovery" where
  "run_events d evs = foldl step d evs"

text \<open>
  The task the loop of the queue comes to next: the first one that is not an exploration
  without candidates.
\<close>

definition next_task :: "task list \<Rightarrow> task option" where
  "next_task q = (case dropWhile (\<lambda>t. t = Explore []) q of [] \<Rightarrow> None | t # _ \<Rightarrow> Some t)"

text \<open>A snapshot in which every port advertised under the key is a port number.\<close>

definition valid_event :: "string \<Rightarrow> devent \<Rightarrow> bool" where
  "valid_event key ev =
     (case ev of
        Snapshot configs \<Rightarrow> list_all (\<lambda>config. fst config = key \<longrightarrow> valid_port (snd config)) configs
      | _ \<Rightarrow> True)"

text \<open>
  What the callbacks keep true. The promise is settled exactly when \<open>finalized\<close> is set;
  as long as no task has thrown, a socket is open exactly when the promise is fulfilled
  with it; the connecting sockets are those of the task started last; the queue runs
  exactly while a task is awaited or after its loop was left; within an awaited task
  \<open>hostSelected\<close> and \<open>finalized\<close> agree; \<open>finalize\<close> leaves an empty queue, a cleared timer
  and no watch; a task that throws rejects the promise; and while the promise is pending
  after the timer has fired, the task of the timer is in the queue.
\<close>

definition discovery_inv :: "discovery \<Rightarrow> bool" where
  "discovery_inv d \<longleftrightarrow>
     (finalized d \<longleftrightarrow> d_outcome d \<noteq> Pending)
     \<and> (\<not> aborted d \<longrightarrow> (\<forall>s. d_sockets d s = Some Opened \<longleftrightarrow> d_outcome d = Fulfilled s))
     \<and> (\<forall>s. d_sockets d s = Some Connecting \<longleftrightarrow> s \<in> set (inflight d))
     \<and> (running d \<longleftrightarrow> inflight d \<noteq> [] \<or> aborted d)
     \<and> (\<not> running d \<longrightarrow> queue d = [])
     \<and> (\<not> aborted d \<longrightarrow> inflight d \<noteq> [] \<longrightarrow> (hostSelected d \<longleftrightarrow> finalized d))
     \<and> (finalized d \<longrightarrow> queue d = [] \<and> \<not> d_timer d \<and> \<not> d_watching d)
     \<and> (\<forall>s. d_next_socket d \<le> s \<longrightarrow> d_sockets d s = None)
     \<and> (aborted d \<longrightarrow> d_outcome d = Rejected caught_unexpected)
     \<and> (\<not> d_timer d \<and> \<not> finalized d \<longrightarrow> TimedOut \<in> set (queue d))"

text \<open>The same at the head of the loop of the queue, where no task is awaited.\<close>

definition loop_inv :: "discovery \<Rightarrow> bool" where
  "loop_inv d \<longleftrightarrow>
     (finalized d \<longleftrightarrow> d_outcome d \<noteq> Pending)
     \<and> (\<forall>s. d_sockets d s = Some Opened \<longleftrightarrow> d_outcome d = Fulfilled s)
     \<and> (\<forall>s. d_sockets d s \<noteq> Some Connecting)
     \<and> running d \<and> inflight d = [] \<and> \<not> aborted d
     \<and> (finalized d \<longrightarrow> queue d = [] \<and> \<not> d_timer d \<and> \<not> d_watching d)
     \<and> (\<forall>s. d_next_socket d \<le> s \<longrightarrow> d_sockets d s = None)
     \<and> (\<not> d_timer d \<and> \<not> finalized d \<longrightarrow> TimedOut \<in> set (queue d))"

text \<open>No task has thrown, and no queued task is going to.\<close>

definition ports_inv :: "discovery \<Rightarrow> bool" where
  "ports_inv d \<longleftrightarrow>
     \<not> aborted d \<and> (\<forall>ports. Explore ports \<in> set (queue d) \<longrightarrow> list_all valid_port ports)"

section \<open>Properties of the graph codec on small inputs\<close>

lemma two_le_fuel: "2 \<le> fuel \<Longrightarrow> \<exists>m. fuel = Suc (Suc m)"
  by (cases fuel; simp; rename_tac k; case_tac k; simp)

text \<open>
  C5. For the cyclic object \<open>a\<close> with \<^verbatim>\<open>a.self === a\<close> (stored at any address \<open>a\<close> of any
  heap), \<^verbatim>\<open>dehydrateValue(a)\<close> returns with two units of fuel or more: the id 0 is in
  the cache before the property \<^verbatim>\<open>self\<close> is visited, so the second visit returns the id.
  It returns the record \<^verbatim>\<open>{0: {self: 0}}\<close>, and hydrating that record returns a reference
  \<open>r\<close> to an object whose property \<^verbatim>\<open>self\<close> is \<open>r\<close> itself.
\<close>

theorem cyclic_self_roundtrip:
  assumes "h a = Some (Obj [(''self'', Ref a)])" and "2 \<le> fuel"
  shows "\<exists>d r h'. dehydrateValue fuel h (Ref a) = Some (Inr d)
           \<and> d = [(0, NObj [(''self'', 0)])]
           \<and> hydrateValue fuel (Some d) = Some (Inr (Ref r, h'))
           \<and> h' r = Some (Obj [(''self'', Ref r)])"
proof -
  from assms(2) obtain m where m: "fuel = Suc (Suc m)"
    using two_le_fuel by blast
  have enc: "dehydrateValue fuel h (Ref a) = Some (Inr [(0, NObj [(''self'', 0)])])"
    unfolding m dehydrateValue_def
    by (simp add: assms(1) set_entry_value_def add_entry_def own_properties_def ignoredKeys_def
        assigned_def)
  have dec: "\<exists>r h'. hydrateValue fuel (Some [(0, NObj [(''self'', 0)])]) = Some (Inr (Ref r, h'))
               \<and> h' r = Some (Obj [(''self'', Ref r)])"
    unfolding m hydrateValue_def
    by (simp add: set_cache_value_def add_hentry_def alloc_def lookup_def assigned_def)
  from enc dec show ?thesis by blast
qed

theorem cyclic_self_roundtrip_witness:
  "\<exists>d r h'. dehydrateValue 2 (Map.empty(7 \<mapsto> Obj [(''self'', Ref 7)])) (Ref 7) = Some (Inr d)
           \<and> d = [(0, NObj [(''self'', 0)])]
           \<and> hydrateValue 2 (Some d) = Some (Inr (Ref r, h'))
           \<and> h' r = Some (Obj [(''self'', Ref r)])"
  using cyclic_self_roundtrip [of "Map.empty(7 \<mapsto> Obj [(''self'', Ref 7)])" 7 2] by simp

text \<open>
  C6, as the code has it. \<^verbatim>\<open>hydrateValue\<close> throws its hydration error for a missing
  (\<^verbatim>\<open>undefined\<close>) argument and for the empty record. A record that is not empty and has
  no entry for id 0 passes the guard; \<^verbatim>\<open>value[0]\<close> is \<^verbatim>\<open>undefined\<close>, a primitive, and
  \<^verbatim>\<open>hydrateValue\<close> returns \<^verbatim>\<open>undefined\<close> without building any object.
\<close>

theorem hydrateValue_guard:
  "hydrateValue fuel None = Some (Inl HydrationError)
   \<and> hydrateValue fuel (Some []) = Some (Inl HydrationError)
   \<and> (d \<noteq> [] \<and> map_of d 0 = None \<and> 0 < fuel
        \<longrightarrow> hydrateValue fuel (Some d) = Some (Inr (Prim JUndefined, Map.empty)))"
proof (intro conjI impI)
  show "hydrateValue fuel None = Some (Inl HydrationError)"
    by (simp add: hydrateValue_def)
  show "hydrateValue fuel (Some []) = Some (Inl HydrationError)"
    by (simp add: hydrateValue_def)
next
  assume a: "d \<noteq> [] \<and> map_of d 0 = None \<and> 0 < fuel"
  then obtain m where m: "fuel = Suc m" by (cases fuel) auto
  from a show "hydrateValue fuel (Some d) = Some (Inr (Prim JUndefined, Map.empty))"
    unfolding m hydrateValue_def by (simp add: lookup_def set_cache_value_def add_hentry_def)
qed

theorem hydrateValue_guard_witness:
  "hydrateValue 1 None = Some (Inl HydrationError)
   \<and> hydrateValue 1 (Some []) = Some (Inl HydrationError)
   \<and> [(1, NPrim (JNum 5))] \<noteq> [] \<and> map_of [(1::nat, NPrim (JNum 5))] 0 = None \<and> (0::nat) < 1
   \<and> hydrateValue 1 (Some [(1, NPrim (JNum 5))]) = Some (Inr (Prim JUndefined, Map.empty))"
  using hydrateValue_guard [of 1 "[(1, NPrim (JNum 5))]"] by simp

text \<open>
  The claim as stated fails at the record \<^verbatim>\<open>{1: 5}\<close>, which is not empty and has no
  entry for id 0: \<^verbatim>\<open>hydrateValue\<close> returns \<^verbatim>\<open>undefined\<close>, it does not throw.
\<close>

theorem hydrateValue_missing_root_counterexample:
  "hydrateValue 1 (Some [(1, NPrim (JNum 5))]) = Some (Inr (Prim JUndefined, Map.empty))
   \<and> hydrateValue 1 (Some [(1, NPrim (JNum 5))]) \<noteq> Some (Inl HydrationError)"
  by (simp add: hydrateValue_def lookup_def set_cache_value_def add_hentry_def)


section \<open>Properties of the graph codec\<close>

lemma cache_set_entry_value [simp]:
  "nextId (set_entry_value v x st) = nextId st"
  "map fst (cache (set_entry_value v x st)) = map fst (cache st)"
  "map (\<lambda>(x, e). entry_id e) (cache (set_entry_value v x st)) = map (\<lambda>(x, e). entry_id e) (cache st)"
  by (auto simp: set_entry_value_def)

lemma cached_set_entry_value [simp]: "cached (set_entry_value v x st) = cached st"
  unfolding cached_def using cache_set_entry_value(2) [of v x st]
  by (metis set_map)

lemma map_of_set_entry_value:
  "map_of (cache (set_entry_value v x st)) y =
     (if y = v then map_option (\<lambda>e. e\<lparr>entry_value := x\<rparr>) (map_of (cache st) v)
      else map_of (cache st) y)"
proof -
  have aux: "map_of (map (\<lambda>(k, e). if k = v then (k, e\<lparr>entry_value := x\<rparr>) else (k, e)) xs) y =
     (if y = v then map_option (\<lambda>e. e\<lparr>entry_value := x\<rparr>) (map_of xs v) else map_of xs y)" for xs
    by (induction xs) auto
  show ?thesis unfolding set_entry_value_def by (simp add: aux del: split_paired_All)
qed

lemma idof_set_entry_value [simp]: "idof (set_entry_value v x st) = idof st"
  by (rule ext) (auto simp: idof_def map_of_set_entry_value split: option.splits)

lemma cached_iff: "x \<in> cached st \<longleftrightarrow> map_of (cache st) x \<noteq> None"
  by (simp add: cached_def map_of_eq_None_iff)

lemma nodeof_set_entry_value:
  "nodeof (set_entry_value v x st) y = (if y = v \<and> v \<in> cached st then x else nodeof st y)"
proof (cases "map_of (cache st) v")
  case None
  then have "v \<notin> cached st" by (simp add: cached_iff)
  with None show ?thesis
    by (simp add: nodeof_def map_of_set_entry_value)
next
  case (Some e)
  then have "v \<in> cached st" by (simp add: cached_iff)
  with Some show ?thesis
    by (simp add: nodeof_def map_of_set_entry_value)
qed

lemma dstate_ok_set_entry_value [simp]: "dstate_ok (set_entry_value v x st) = dstate_ok st"
proof -
  have "(\<forall>(y, e) \<in> set (cache (set_entry_value v x st)). entry_id e < n)
      = (\<forall>(y, e) \<in> set (cache st). entry_id e < n)" for n
    by (auto simp: set_entry_value_def split: if_splits)
  then show ?thesis by (simp add: dstate_ok_def)
qed


lemma add_entry_simps [simp]:
  "cache (add_entry v st) = cache st @ [(v, \<lparr>entry_id = nextId st, entry_value = NPrim JUndefined\<rparr>)]"
  "nextId (add_entry v st) = Suc (nextId st)"
  by (simp_all add: add_entry_def)

lemma cached_add_entry [simp]: "cached (add_entry v st) = insert v (cached st)"
  by (auto simp: cached_def)

lemma dstate_ok_add_entry:
  assumes "dstate_ok st" and "v \<notin> cached st"
  shows "dstate_ok (add_entry v st)"
proof -
  from assms(1) have lt: "\<And>x e. (x, e) \<in> set (cache st) \<Longrightarrow> entry_id e < nextId st"
    by (auto simp: dstate_ok_def)
  then have "nextId st \<notin> (\<lambda>(x, e). entry_id e) ` set (cache st)"
    by fastforce
  with assms lt show ?thesis
    by (auto simp: dstate_ok_def cached_def less_Suc_eq)
qed

lemma map_of_extend:
  assumes "cache st' = cache st @ new" and "x \<in> cached st"
  shows "map_of (cache st') x = map_of (cache st) x"
proof -
  from assms(2) obtain e where "map_of (cache st) x = Some e"
    by (auto simp: cached_iff)
  then show ?thesis by (simp add: assms(1) map_add_def)
qed

lemma idof_extend:
  "cache st' = cache st @ new \<Longrightarrow> x \<in> cached st \<Longrightarrow> idof st' x = idof st x"
  unfolding idof_def using map_of_extend [of st' st new x] by simp

lemma nodeof_extend:
  "cache st' = cache st @ new \<Longrightarrow> x \<in> cached st \<Longrightarrow> nodeof st' x = nodeof st x"
  unfolding nodeof_def using map_of_extend [of st' st new x] by simp

lemma cached_extend:
  "cache st' = cache st @ new \<Longrightarrow> cached st' = cached st \<union> fst ` set new"
  by (auto simp: cached_def)

lemma encode_cong:
  assumes "\<And>y. y \<in> set (children h x) \<Longrightarrow> ids y = ids' y"
  shows "encode h ids x = encode h ids' x"
proof (cases x)
  case (Prim p)
  then show ?thesis by (simp add: encode_def)
next
  case (Ref a)
  show ?thesis
  proof (cases "h a")
    case None
    with Ref show ?thesis by (simp add: encode_def)
  next
    case (Some ob)
    show ?thesis
    proof (cases ob)
      case (Arr xs)
      with Ref Some assms show ?thesis by (simp add: encode_def children_def)
    next
      case (Obj kvs)
      with Ref Some assms have "\<And>k y. (k, y) \<in> set (own_properties kvs) \<Longrightarrow> ids y = ids' y"
        by (force simp: children_def)
      then have "map (\<lambda>(k, y). (k, ids y)) (own_properties kvs)
               = map (\<lambda>(k, y). (k, ids' y)) (own_properties kvs)"
        by (intro map_cong) auto
      then have "assigned (map (\<lambda>(k, y). (k, ids y)) (own_properties kvs))
               = assigned (map (\<lambda>(k, y). (k, ids' y)) (own_properties kvs))"
        by (rule arg_cong)
      with Ref Some Obj show ?thesis by (simp add: encode_def)
    next
      case (Fn name)
      with Ref Some show ?thesis by (simp add: encode_def)
    qed
  qed
qed

lemma complete_extend:
  assumes c: "complete h st x" and x: "x \<in> cached st" and e: "cache st' = cache st @ new"
  shows "complete h st' x"
proof -
  from c have sub: "set (children h x) \<subseteq> cached st" and n: "nodeof st x = encode h (idof st) x"
    by (simp_all add: complete_def)
  have "encode h (idof st') x = encode h (idof st) x"
    by (rule encode_cong) (use sub e in \<open>auto simp: idof_extend\<close>)
  moreover have "nodeof st' x = nodeof st x" using e x by (rule nodeof_extend)
  moreover have "cached st \<subseteq> cached st'" using e by (auto simp: cached_extend)
  ultimately show ?thesis using sub n by (auto simp: complete_def)
qed

lemma serialized_refl: "dstate_ok st \<Longrightarrow> cached st \<subseteq> R \<Longrightarrow> serialized h R st st"
  by (simp add: serialized_def)

lemma serialized_trans:
  assumes a: "serialized h R st st1" and b: "serialized h R st1 st2"
  shows "serialized h R st st2"
proof -
  from a obtain new1 where n1: "cache st1 = cache st @ new1"
    and c1: "\<And>y. y \<in> fst ` set new1 \<Longrightarrow> complete h st1 y"
    by (auto simp: serialized_def)
  from b obtain new2 where n2: "cache st2 = cache st1 @ new2"
    and c2: "\<And>y. y \<in> fst ` set new2 \<Longrightarrow> complete h st2 y"
    and ok: "dstate_ok st2" "cached st2 \<subseteq> R"
    by (auto simp: serialized_def)
  have "cache st2 = cache st @ (new1 @ new2)" by (simp add: n1 n2)
  moreover have "complete h st2 y" if "y \<in> fst ` set (new1 @ new2)" for y
  proof (cases "y \<in> fst ` set new1")
    case True
    then have "y \<in> cached st1" by (auto simp: cached_def n1)
    with c1 [OF True] n2 show ?thesis by (metis complete_extend)
  next
    case False
    with that have "y \<in> fst ` set new2" by auto
    then show ?thesis by (rule c2)
  qed
  ultimately show ?thesis using ok unfolding serialized_def by blast
qed


lemma idof_add_entry:
  assumes "x \<notin> cached st"
  shows "idof (add_entry x st) x = nextId st"
proof -
  from assms have "map_of (cache st) x = None" by (simp add: cached_iff)
  then show ?thesis by (simp add: idof_def map_add_def)
qed

lemma set_entry_value_untouched:
  assumes "x \<notin> fst ` set xs"
  shows "map (\<lambda>(k, e). if k = x then (k, e\<lparr>entry_value := nd\<rparr>) else (k, e)) xs = xs"
  using assms by (induction xs) auto

lemma finish_entry:
  assumes ok: "dstate_ok st" and x: "x \<notin> cached st" and xR: "x \<in> R"
    and s: "serialized h R (add_entry x st) st2"
    and nd: "nd = encode h (idof st2) x"
    and ch: "set (children h x) \<subseteq> cached st2"
  shows "serialized h R st (set_entry_value x nd st2)
       \<and> x \<in> cached (set_entry_value x nd st2)
       \<and> idof (set_entry_value x nd st2) x = nextId st"
proof -
  let ?st3 = "set_entry_value x nd st2"
  let ?f = "\<lambda>(k, e). if k = x then (k, e\<lparr>entry_value := nd\<rparr>) else (k, e)"
  from s obtain new2 where n2: "cache st2 = cache (add_entry x st) @ new2"
    and c2: "\<And>y. y \<in> fst ` set new2 \<Longrightarrow> complete h st2 y"
    and ok2: "dstate_ok st2" and sub: "cached st2 \<subseteq> R"
    by (auto simp: serialized_def)
  define new where "new = map ?f ((x, \<lparr>entry_id = nextId st, entry_value = NPrim JUndefined\<rparr>) # new2)"
  have xc2: "x \<in> cached st2" by (simp add: cached_extend [OF n2])
  have keys: "fst ` set new = insert x (fst ` set new2)"
    unfolding new_def by (force simp: image_iff split: if_splits)
  have "cache ?st3 = map ?f (cache st) @ new"
    by (simp add: set_entry_value_def n2 new_def)
  moreover have "map ?f (cache st) = cache st"
    by (rule set_entry_value_untouched) (use x in \<open>simp add: cached_def\<close>)
  ultimately have ext: "cache ?st3 = cache st @ new" by simp
  have id3: "idof ?st3 x = nextId st"
    using idof_extend [OF n2, of x] idof_add_entry [OF x] by simp
  have "complete h ?st3 y" if "y \<in> fst ` set new" for y
  proof (cases "y = x")
    case True
    with xc2 nd ch show ?thesis
      by (simp add: complete_def nodeof_set_entry_value)
  next
    case False
    with that keys have "y \<in> fst ` set new2" by auto
    from c2 [OF this] False show ?thesis
      by (simp add: complete_def nodeof_set_entry_value)
  qed
  with ext ok2 sub have "serialized h R st ?st3"
    unfolding serialized_def by auto
  with xc2 id3 show ?thesis by simp
qed

lemma card_less_step:
  assumes "finite R" and "x \<in> R" and "x \<notin> C" and "card (R - C) < Suc n"
  shows "card (R - insert x C) < n"
proof -
  have "R - insert x C = (R - C) - {x}" by auto
  moreover have "x \<in> R - C" using assms by simp
  moreover have "finite (R - C)" using assms by simp
  ultimately have "card (R - insert x C) = card (R - C) - 1" by simp
  moreover have "0 < card (R - C)" using \<open>x \<in> R - C\<close> \<open>finite (R - C)\<close> card_gt_0_iff by blast
  ultimately show ?thesis using assms(4) by simp
qed

lemma serialize_each_correct:
  assumes fin: "finite R" and cl: "closed h R"
    and IH: "\<And>st x. dstate_ok st \<Longrightarrow> cached st \<subseteq> R \<Longrightarrow> x \<in> R \<Longrightarrow> card (R - cached st) < n \<Longrightarrow>
       \<exists>st' i. serialize n h st x = Some (Inr (st', i)) \<and> serialized h R st st'
              \<and> x \<in> cached st' \<and> idof st' x = i"
  shows "dstate_ok st \<Longrightarrow> cached st \<subseteq> R \<Longrightarrow> set xs \<subseteq> R \<Longrightarrow> card (R - cached st) < n \<Longrightarrow>
       \<exists>st' ids. serialize_each n h st xs = Some (Inr (st', ids)) \<and> serialized h R st st'
              \<and> set xs \<subseteq> cached st' \<and> ids = map (idof st') xs"
proof (induction xs arbitrary: st)
  case Nil
  then show ?case by (simp add: serialized_refl)
next
  case (Cons x xs)
  from Cons.prems have xR: "x \<in> R" and xsR: "set xs \<subseteq> R" by auto
  from IH [OF Cons.prems(1,2) xR Cons.prems(4)]
  obtain st1 i where s1: "serialize n h st x = Some (Inr (st1, i))"
    and p1: "serialized h R st st1" and x1: "x \<in> cached st1" and i: "idof st1 x = i"
    by blast
  from p1 obtain new1 where ok1: "dstate_ok st1" and sub1: "cached st1 \<subseteq> R"
    and n1: "cache st1 = cache st @ new1"
    by (auto simp: serialized_def)
  have "cached st \<subseteq> cached st1" by (simp add: cached_extend [OF n1])
  then have "R - cached st1 \<subseteq> R - cached st" by auto
  then have "card (R - cached st1) \<le> card (R - cached st)"
    using fin by (intro card_mono) auto
  with Cons.prems(4) have m1: "card (R - cached st1) < n" by simp
  from Cons.IH [OF ok1 sub1 xsR m1]
  obtain st2 ids where s2: "serialize_each n h st1 xs = Some (Inr (st2, ids))"
    and p2: "serialized h R st1 st2" and x2: "set xs \<subseteq> cached st2"
    and ids: "ids = map (idof st2) xs"
    by blast
  from p2 obtain new2 where n2: "cache st2 = cache st1 @ new2"
    by (auto simp: serialized_def)
  have "idof st2 x = i" using idof_extend [OF n2 x1] i by simp
  moreover have "x \<in> cached st2" using x1 by (simp add: cached_extend [OF n2])
  moreover note serialized_trans [OF p1 p2]
  ultimately show ?case using s1 s2 x2 ids by simp
qed


lemma serialize_hit:
  assumes "map_of (cache st) x = Some e"
  shows "serialize (Suc n) h st x = Some (Inr (st, entry_id e))"
  using assms by simp

lemma serialize_miss:
  assumes "map_of (cache st) x = None"
  shows "serialize (Suc n) h st x =
     (case x of
        Ref a \<Rightarrow>
          (case h a of
             None \<Rightarrow> None
           | Some (Arr xs) \<Rightarrow>
               (case serialize_each n h (add_entry x st) xs of
                  None \<Rightarrow> None
                | Some (Inl e) \<Rightarrow> Some (Inl e)
                | Some (Inr (st2, ids)) \<Rightarrow> Some (Inr (set_entry_value x (NArr ids) st2, nextId st)))
           | Some (Fn name) \<Rightarrow>
               Some (Inr (set_entry_value x (NPrim (JStr (function_placeholder name))) (add_entry x st),
                          nextId st))
           | Some (Obj kvs) \<Rightarrow>
               (case serialize_each n h (add_entry x st) (map snd (own_properties kvs)) of
                  None \<Rightarrow> None
                | Some (Inl e) \<Rightarrow> Some (Inl e)
                | Some (Inr (st2, ids)) \<Rightarrow>
                    Some (Inr (set_entry_value x (NObj (assigned (zip (map fst (own_properties kvs)) ids))) st2,
                               nextId st))))
      | Prim p \<Rightarrow>
          (if p = JNull then Some (Inl TypeError)
           else Some (Inr (set_entry_value x (NPrim p) (add_entry x st), nextId st))))"
  using assms by (simp add: Let_def split: jsval.splits option.splits jsobj.splits)

lemma zip_fst_map_snd:
  "zip (map fst kvs) (map (f \<circ> snd) kvs) = map (\<lambda>(k, y). (k, f y)) kvs"
  by (induction kvs) auto

lemma serialize_correct:
  assumes fin: "finite R" and cl: "closed h R"
  shows "dstate_ok st \<Longrightarrow> cached st \<subseteq> R \<Longrightarrow> x \<in> R \<Longrightarrow> card (R - cached st) < n \<Longrightarrow>
       \<exists>st' i. serialize n h st x = Some (Inr (st', i)) \<and> serialized h R st st'
              \<and> x \<in> cached st' \<and> idof st' x = i"
proof (induction n arbitrary: st x)
  case 0
  then show ?case by simp
next
  case (Suc n)
  have each: "\<exists>st' ids. serialize_each n h s xs = Some (Inr (st', ids)) \<and> serialized h R s st'
              \<and> set xs \<subseteq> cached st' \<and> ids = map (idof st') xs"
    if a: "dstate_ok s" "cached s \<subseteq> R" "set xs \<subseteq> R" "card (R - cached s) < n" for s xs
  proof (rule serialize_each_correct [OF fin cl _ a])
    fix st x
    assume "dstate_ok st" "cached st \<subseteq> R" "x \<in> R" "card (R - cached st) < n"
    then show "\<exists>st' i. serialize n h st x = Some (Inr (st', i)) \<and> serialized h R st st'
              \<and> x \<in> cached st' \<and> idof st' x = i"
      by (rule Suc.IH)
  qed
  show ?case
  proof (cases "map_of (cache st) x")
    case (Some e)
    then have "x \<in> cached st" by (simp add: cached_iff)
    moreover have "idof st x = entry_id e" using Some by (simp add: idof_def)
    ultimately show ?thesis
      using Some Suc.prems by (simp add: serialize_hit serialized_refl del: serialize.simps)
  next
    case None
    then have xn: "x \<notin> cached st" by (simp add: cached_iff)
    note miss = serialize_miss [OF None, of n h]
    have ok1: "dstate_ok (add_entry x st)"
      using Suc.prems(1) xn by (rule dstate_ok_add_entry)
    have sub1: "cached (add_entry x st) \<subseteq> R" using Suc.prems(2,3) by simp
    have m1: "card (R - cached (add_entry x st)) < n"
      using card_less_step [OF fin Suc.prems(3) xn Suc.prems(4)] by simp
    from cl Suc.prems(3) have chR: "set (children h x) \<subseteq> R" and nn: "x \<noteq> Prim JNull"
      and alloc: "\<And>a. x = Ref a \<Longrightarrow> h a \<noteq> None"
      by (auto simp: closed_def)
    have leaf: "serialized h R st (set_entry_value x nd (add_entry x st))
       \<and> x \<in> cached (set_entry_value x nd (add_entry x st))
       \<and> idof (set_entry_value x nd (add_entry x st)) x = nextId st"
      if "children h x = []" and "\<And>ids. nd = encode h ids x" for nd
      by (rule finish_entry [OF Suc.prems(1) xn Suc.prems(3) serialized_refl [OF ok1 sub1]])
         (use that in auto)
    show ?thesis
    proof (cases x)
      case (Prim p)
      with nn have "p \<noteq> JNull" by simp
      moreover have "children h x = []" "\<And>ids. NPrim p = encode h ids x"
        using Prim by (simp_all add: children_def encode_def)
      note leaf [OF this]
      ultimately show ?thesis
        unfolding miss using Prim by simp
    next
      case (Ref a)
      from alloc [OF Ref] obtain ob where ha: "h a = Some ob" by auto
      show ?thesis
      proof (cases ob)
        case (Fn name)
        have "children h x = []" "\<And>ids. NPrim (JStr (function_placeholder name)) = encode h ids x"
          using Ref ha Fn by (simp_all add: children_def encode_def)
        note leaf [OF this]
        then show ?thesis
          unfolding miss using Ref ha Fn by simp
      next
        case (Arr xs)
        have ch: "children h x = xs" using Ref ha Arr by (simp add: children_def)
        with chR have "set xs \<subseteq> R" by simp
        from each [OF ok1 sub1 this m1]
        obtain st2 ids where s2: "serialize_each n h (add_entry x st) xs = Some (Inr (st2, ids))"
          and p2: "serialized h R (add_entry x st) st2" and x2: "set xs \<subseteq> cached st2"
          and ids: "ids = map (idof st2) xs"
          by blast
        have "NArr ids = encode h (idof st2) x"
          using Ref ha Arr ids by (simp add: encode_def)
        from finish_entry [OF Suc.prems(1) xn Suc.prems(3) p2 this] x2 ch
        show ?thesis
          unfolding miss using Ref ha Arr s2 by simp
      next
        case (Obj kvs)
        have ch: "children h x = map snd (own_properties kvs)"
          using Ref ha Obj by (simp add: children_def)
        with chR have "set (map snd (own_properties kvs)) \<subseteq> R" by simp
        from each [OF ok1 sub1 this m1]
        obtain st2 ids where s2: "serialize_each n h (add_entry x st) (map snd (own_properties kvs))
               = Some (Inr (st2, ids))"
          and p2: "serialized h R (add_entry x st) st2"
          and x2: "set (map snd (own_properties kvs)) \<subseteq> cached st2"
          and ids: "ids = map (idof st2) (map snd (own_properties kvs))"
          by blast
        have "NObj (assigned (zip (map fst (own_properties kvs)) ids)) = encode h (idof st2) x"
          using Ref ha Obj by (simp add: encode_def ids zip_fst_map_snd)
        from finish_entry [OF Suc.prems(1) xn Suc.prems(3) p2 this] x2 ch
        show ?thesis
          unfolding miss using Ref ha Obj s2 by simp
      qed
    qed
  qed
qed

lemma hcached_iff: "val \<in> hcached st \<longleftrightarrow> map_of (hcache st) val \<noteq> None"
  by (simp add: hcached_def map_of_eq_None_iff)

lemma map_of_set_cache_value:
  "map_of (hcache (set_cache_value val r st)) key =
     (if key = val \<and> val \<in> hcached st then Some r else map_of (hcache st) key)"
proof -
  have aux: "map_of (map (\<lambda>(k, x). if k = val then (k, r) else (k, x)) xs) key =
     (if key = val \<and> map_of xs val \<noteq> None then Some r else map_of xs key)" for xs
    by (induction xs) auto
  show ?thesis unfolding set_cache_value_def by (simp add: aux hcached_iff)
qed

lemma set_cache_value_simps [simp]:
  "hheap (set_cache_value val r st) = hheap st"
  "hnext (set_cache_value val r st) = hnext st"
  "hcached (set_cache_value val r st) = hcached st"
  by (auto simp: set_cache_value_def hcached_def image_iff split: if_splits) force+

lemma add_hentry_simps [simp]:
  "hheap (add_hentry val st) = hheap st"
  "hnext (add_hentry val st) = hnext st"
  "hcached (add_hentry val st) = insert val (hcached st)"
  by (auto simp: add_hentry_def hcached_def)

lemma map_of_add_hentry:
  "map_of (hcache (add_hentry val st)) key =
     (if key = val \<and> val \<notin> hcached st then Some (Prim JUndefined) else map_of (hcache st) key)"
  by (auto simp: add_hentry_def map_add_def hcached_iff split: option.splits)

lemma alloc_simps:
  "alloc ob st = (hnext st, st\<lparr>hheap := (hheap st)(hnext st \<mapsto> ob), hnext := Suc (hnext st)\<rparr>)"
  by (simp add: alloc_def)


lemma deserialize_hit:
  assumes "map_of (hcache st) val = Some r"
  shows "deserialize (Suc n) d st val = Some (Inr (st, r))"
  using assms by simp

lemma deserialize_prim:
  assumes "map_of (hcache st) (DPrim p) = None" and "p \<noteq> JNull"
  shows "deserialize (Suc n) d st (DPrim p) =
           Some (Inr (set_cache_value (DPrim p) (Prim p) (add_hentry (DPrim p) st), Prim p))"
  using assms by simp

lemma deserialize_arr:
  assumes "map_of (hcache st) (DNode k) = None" and "map_of d k = Some (NArr ks)"
  shows "deserialize (Suc n) d st (DNode k) =
     (case deserialize_each n d (add_hentry (DNode k) st) (map (lookup d) ks) of
        None \<Rightarrow> None
      | Some (Inl e) \<Rightarrow> Some (Inl e)
      | Some (Inr (st2, rs)) \<Rightarrow>
          Some (Inr (set_cache_value (DNode k) (Ref (hnext st2))
                       (st2\<lparr>hheap := (hheap st2)(hnext st2 \<mapsto> Arr rs), hnext := Suc (hnext st2)\<rparr>),
                     Ref (hnext st2))))"
  using assms by (simp add: alloc_def split: option.splits sum.splits prod.splits)

lemma deserialize_obj:
  assumes "map_of (hcache st) (DNode k) = None" and "map_of d k = Some (NObj kvs)"
  shows "deserialize (Suc n) d st (DNode k) =
     (case deserialize_each n d
             (set_cache_value (DNode k) (Ref (hnext st))
                ((add_hentry (DNode k) st)\<lparr>hheap := (hheap st)(hnext st \<mapsto> Obj []),
                                            hnext := Suc (hnext st)\<rparr>))
             (map (\<lambda>(k, v). lookup d v) kvs) of
        None \<Rightarrow> None
      | Some (Inl e) \<Rightarrow> Some (Inl e)
      | Some (Inr (st4, rs)) \<Rightarrow>
          Some (Inr (st4\<lparr>hheap := (hheap st4)(hnext st \<mapsto> Obj (assigned (zip (map fst kvs) rs)))\<rparr>,
                     Ref (hnext st))))"
  using assms by (simp add: alloc_def Let_def split: option.splits sum.splits prod.splits)


lemma rebuilt_cached:
  "val \<in> hcached st \<Longrightarrow> map_of (hcache st) val = Some (rebuilt st val)"
  by (auto simp: rebuilt_def hcached_iff)

lemma rebuilt_same:
  "map_of (hcache st') val = map_of (hcache st) val \<Longrightarrow> rebuilt st' val = rebuilt st val"
  by (simp add: rebuilt_def)

lemma unfinished_iff:
  "val \<in> unfinished st \<longleftrightarrow> (\<exists>k. val = DNode k) \<and> map_of (hcache st) val = Some (Prim JUndefined)"
  by (auto simp: unfinished_def)

lemma unfinished_cached: "unfinished st \<subseteq> hcached st"
  by (auto simp: unfinished_iff hcached_iff)

lemma hcomplete_not_unfinished:
  assumes "hcomplete d st val"
  shows "val \<notin> unfinished st"
proof
  assume u: "val \<in> unfinished st"
  then obtain k where k: "val = DNode k" and m: "map_of (hcache st) val = Some (Prim JUndefined)"
    by (auto simp: unfinished_iff)
  from m have "rebuilt st val = Prim JUndefined" by (simp add: rebuilt_def)
  with assms k show False by (auto simp: hcomplete_def)
qed

lemma deserialized_refl: "hstate_ok d st \<Longrightarrow> hcached st \<subseteq> R \<Longrightarrow> deserialized d R st st"
  by (simp add: deserialized_def)

lemma deserialized_unfinished:
  assumes "deserialized d R st st'"
  shows "unfinished st' = unfinished st"
proof (rule set_eqI)
  fix val
  from assms have sub: "hcached st \<subseteq> hcached st'"
    and same: "\<And>v. v \<in> hcached st \<Longrightarrow> map_of (hcache st') v = map_of (hcache st) v"
    and new: "\<And>v. v \<in> hcached st' \<Longrightarrow> v \<notin> hcached st \<Longrightarrow> hcomplete d st' v"
    by (auto simp: deserialized_def)
  show "val \<in> unfinished st' \<longleftrightarrow> val \<in> unfinished st"
  proof (cases "val \<in> hcached st")
    case True
    then show ?thesis by (simp add: unfinished_iff same)
  next
    case False
    then have a: "val \<notin> unfinished st" using unfinished_cached by auto
    have "val \<notin> unfinished st'"
    proof (cases "val \<in> hcached st'")
      case True
      from new [OF True False] show ?thesis by (rule hcomplete_not_unfinished)
    next
      case False
      then show ?thesis using unfinished_cached by auto
    qed
    with a show ?thesis by simp
  qed
qed

lemma hcomplete_transfer:
  assumes c: "hcomplete d st val"
    and same: "\<And>v. v = val \<or> v \<in> set (dchildren d val) \<Longrightarrow> map_of (hcache st') v = map_of (hcache st) v"
    and heap: "\<And>a. rebuilt st val = Ref a \<Longrightarrow> hheap st' a = hheap st a"
    and sub: "hcached st \<subseteq> hcached st'" and unf: "unfinished st' \<subseteq> unfinished st"
  shows "hcomplete d st' val"
proof -
  have r: "rebuilt st' v = rebuilt st v" if "v = val \<or> v \<in> set (dchildren d val)" for v
    using same [OF that] by (rule rebuilt_same)
  from c sub unf have tail: "val \<in> hcached st'" "set (dchildren d val) \<subseteq> hcached st' - unfinished st'"
    by (auto simp: hcomplete_def)
  show ?thesis
  proof (cases val)
    case (DPrim p)
    with c r [of val] tail show ?thesis by (simp add: hcomplete_def)
  next
    case (DNode k)
    from c DNode obtain a where a: "rebuilt st val = Ref a"
      and cell: "(case map_of d k of
                  Some (NArr ks) \<Rightarrow> hheap st a = Some (Arr (map (rebuilt st \<circ> lookup d) ks))
                | Some (NObj kvs) \<Rightarrow>
                    hheap st a = Some (Obj (assigned (map (\<lambda>(k, v). (k, rebuilt st (lookup d v))) kvs)))
                | _ \<Rightarrow> False)"
      by (auto simp: hcomplete_def)
    have a': "rebuilt st' val = Ref a" using r [of val] a by simp
    have cell': "(case map_of d k of
                  Some (NArr ks) \<Rightarrow> hheap st' a = Some (Arr (map (rebuilt st' \<circ> lookup d) ks))
                | Some (NObj kvs) \<Rightarrow>
                    hheap st' a = Some (Obj (assigned (map (\<lambda>(k, v). (k, rebuilt st' (lookup d v))) kvs)))
                | _ \<Rightarrow> False)"
    proof (cases "map_of d k")
      case None
      with cell show ?thesis by simp
    next
      case (Some nd)
      show ?thesis
      proof (cases nd)
        case (NPrim p)
        with cell Some show ?thesis by simp
      next
        case (NArr ks)
        have "map (rebuilt st' \<circ> lookup d) ks = map (rebuilt st \<circ> lookup d) ks"
          by (rule map_cong) (use DNode Some NArr in \<open>auto simp: r dchildren_def\<close>)
        with cell Some NArr heap [OF a] show ?thesis by simp
      next
        case (NObj kvs)
        have "rebuilt st' (lookup d v) = rebuilt st (lookup d v)" if "(k', v) \<in> set kvs" for k' v
        proof -
          from that have "lookup d v \<in> set (dchildren d val)"
            using DNode Some NObj by (force simp: dchildren_def)
          then show ?thesis by (simp add: r)
        qed
        then have "map (\<lambda>(k, v). (k, rebuilt st' (lookup d v))) kvs
            = map (\<lambda>(k, v). (k, rebuilt st (lookup d v))) kvs"
          by auto
        then have "assigned (map (\<lambda>(k, v). (k, rebuilt st' (lookup d v))) kvs)
            = assigned (map (\<lambda>(k, v). (k, rebuilt st (lookup d v))) kvs)"
          by (rule arg_cong)
        with cell Some NObj heap [OF a] show ?thesis by simp
      qed
    qed
    from a' cell' tail DNode show ?thesis by (auto simp: hcomplete_def)
  qed
qed

lemma hstate_ok_ref_bound:
  assumes "hstate_ok d st" and "val \<in> hcached st" and "rebuilt st val = Ref a"
  shows "a < hnext st"
proof (cases val)
  case (DPrim p)
  with assms show ?thesis
    using rebuilt_cached [OF assms(2)] by (auto simp: hstate_ok_def)
next
  case (DNode k)
  with assms rebuilt_cached [OF assms(2)]
  have "map_of (hcache st) (DNode k) = Some (Ref a)" by simp
  with assms(1) show ?thesis unfolding hstate_ok_def by blast
qed

lemma hcomplete_stable:
  assumes c: "hcomplete d st1 val" and ok: "hstate_ok d st1" and s: "deserialized d R st1 st2"
  shows "hcomplete d st2 val"
proof (rule hcomplete_transfer [OF c])
  from c have v: "val \<in> hcached st1" and ch: "set (dchildren d val) \<subseteq> hcached st1"
    by (auto simp: hcomplete_def)
  from s have same: "\<And>v. v \<in> hcached st1 \<Longrightarrow> map_of (hcache st2) v = map_of (hcache st1) v"
    and heap: "\<And>a. a < hnext st1 \<Longrightarrow> hheap st2 a = hheap st1 a"
    by (auto simp: deserialized_def)
  show "map_of (hcache st2) v = map_of (hcache st1) v" if "v = val \<or> v \<in> set (dchildren d val)" for v
    using that v ch by (intro same) auto
  show "hheap st2 a = hheap st1 a" if "rebuilt st1 val = Ref a" for a
    using hstate_ok_ref_bound [OF ok v that] by (rule heap)
  show "hcached st1 \<subseteq> hcached st2" using s by (simp add: deserialized_def)
  show "unfinished st2 \<subseteq> unfinished st1" using deserialized_unfinished [OF s] by simp
qed

lemma deserialized_trans:
  assumes a: "deserialized d R st st1" and b: "deserialized d R st1 st2"
  shows "deserialized d R st st2"
proof -
  from a have ok1: "hstate_ok d st1" by (simp add: deserialized_def)
  have new: "hcomplete d st2 val" if "val \<in> hcached st2 - hcached st" for val
  proof (cases "val \<in> hcached st1")
    case True
    with that a have "hcomplete d st1 val" by (auto simp: deserialized_def)
    then show ?thesis using ok1 b by (rule hcomplete_stable)
  next
    case False
    with that b show ?thesis by (auto simp: deserialized_def)
  qed
  from a b have "hstate_ok d st2" "hcached st \<subseteq> hcached st2" "hcached st2 \<subseteq> R"
    "hnext st \<le> hnext st2"
    by (auto simp: deserialized_def)
  moreover from a b have "\<forall>val \<in> hcached st. map_of (hcache st2) val = map_of (hcache st) val"
    unfolding deserialized_def by (metis subsetD)
  moreover from a b have "\<forall>a. a < hnext st \<longrightarrow> hheap st2 a = hheap st a"
    unfolding deserialized_def by (metis less_le_trans)
  ultimately show ?thesis using new unfolding deserialized_def by blast
qed


lemma frame_simps [simp]:
  "hcached (st\<lparr>hheap := hp\<rparr>) = hcached st"
  "hcached (st\<lparr>hnext := nx\<rparr>) = hcached st"
  "rebuilt (st\<lparr>hheap := hp\<rparr>) = rebuilt st"
  "rebuilt (st\<lparr>hnext := nx\<rparr>) = rebuilt st"
  "unfinished (st\<lparr>hheap := hp\<rparr>) = unfinished st"
  "unfinished (st\<lparr>hnext := nx\<rparr>) = unfinished st"
  by (auto simp: hcached_def rebuilt_def unfinished_def fun_eq_iff)

lemma dchildren_in:
  assumes "dclosed d R" and "x \<in> R" and "c \<in> set (dchildren d x)"
  shows "c \<in> R"
  using assms by (auto simp: dclosed_def)

lemma prim_step:
  assumes ok: "hstate_ok d st" and sub: "hcached st \<subseteq> R" and xR: "DPrim p \<in> R"
    and xn: "DPrim p \<notin> hcached st"
  defines "st' \<equiv> set_cache_value (DPrim p) (Prim p) (add_hentry (DPrim p) st)"
  shows "deserialized d R st st' \<and> DPrim p \<in> hcached st' \<and> DPrim p \<notin> unfinished st'
       \<and> Prim p = rebuilt st' (DPrim p) \<and> hcached st' = insert (DPrim p) (hcached st)"
proof -
  have m: "map_of (hcache st') key = (if key = DPrim p then Some (Prim p) else map_of (hcache st) key)"
    for key
    by (simp add: st'_def map_of_set_cache_value map_of_add_hentry)
  have c: "hcached st' = insert (DPrim p) (hcached st)" and n: "hnext st' = hnext st"
    and hp: "hheap st' = hheap st"
    by (simp_all add: st'_def)
  have ok': "hstate_ok d st'"
    using ok unfolding hstate_ok_def by (simp add: m n hp)
  have r: "rebuilt st' (DPrim p) = Prim p" by (simp add: rebuilt_def m)
  have comp: "hcomplete d st' (DPrim p)"
    by (simp add: hcomplete_def r c dchildren_def)
  have "deserialized d R st st'"
    unfolding deserialized_def using ok' sub xR xn comp by (auto simp: m c n hp)
  then show ?thesis by (simp add: c r unfinished_iff)
qed

lemma arr_start:
  assumes ok: "hstate_ok d st" and xn: "DNode k \<notin> hcached st" and dk: "map_of d k = Some (NArr ks)"
  shows "hstate_ok d (add_hentry (DNode k) st)"
    and "unfinished (add_hentry (DNode k) st) = insert (DNode k) (unfinished st)"
proof -
  have m: "map_of (hcache (add_hentry (DNode k) st)) key =
      (if key = DNode k then Some (Prim JUndefined) else map_of (hcache st) key)" for key
    using xn by (simp add: map_of_add_hentry)
  show "hstate_ok d (add_hentry (DNode k) st)"
    using ok dk unfolding hstate_ok_def by (simp add: m)
  show "unfinished (add_hentry (DNode k) st) = insert (DNode k) (unfinished st)"
    by (auto simp: unfinished_iff m split: if_splits)
qed

lemma arr_finish:
  assumes ok: "hstate_ok d st" and sub: "hcached st \<subseteq> R" and xn: "DNode k \<notin> hcached st"
    and dk: "map_of d k = Some (NArr ks)"
    and s: "deserialized d R (add_hentry (DNode k) st) st2"
    and cs: "set (map (lookup d) ks) \<subseteq> hcached st2 - unfinished st2"
    and rs: "rs = map (rebuilt st2) (map (lookup d) ks)"
  defines "st4 \<equiv> set_cache_value (DNode k) (Ref (hnext st2))
                     (st2\<lparr>hheap := (hheap st2)(hnext st2 \<mapsto> Arr rs), hnext := Suc (hnext st2)\<rparr>)"
  shows "deserialized d R st st4 \<and> DNode k \<in> hcached st4 \<and> DNode k \<notin> unfinished st4
       \<and> Ref (hnext st2) = rebuilt st4 (DNode k) \<and> hcached st4 = hcached st2"
proof -
  let ?x = "DNode k" and ?st1 = "add_hentry (DNode k) st"
  from s have ok2: "hstate_ok d st2" and sub2: "hcached st2 \<subseteq> R"
    and c12: "hcached ?st1 \<subseteq> hcached st2"
    and same: "\<And>v. v \<in> hcached ?st1 \<Longrightarrow> map_of (hcache st2) v = map_of (hcache ?st1) v"
    and nx: "hnext ?st1 \<le> hnext st2"
    and heap: "\<And>a. a < hnext ?st1 \<Longrightarrow> hheap st2 a = hheap ?st1 a"
    and new: "\<And>v. v \<in> hcached st2 \<Longrightarrow> v \<notin> hcached ?st1 \<Longrightarrow> hcomplete d st2 v"
    by (auto simp: deserialized_def)
  have x2: "?x \<in> hcached st2" using c12 by simp
  have xu2: "?x \<in> unfinished st2"
    using deserialized_unfinished [OF s] arr_start(2) [OF ok xn dk] by simp
  have m: "map_of (hcache st4) key = (if key = ?x then Some (Ref (hnext st2)) else map_of (hcache st2) key)"
    for key
    using x2 by (simp add: st4_def map_of_set_cache_value)
  have c: "hcached st4 = hcached st2" and n: "hnext st4 = Suc (hnext st2)"
    and hp: "hheap st4 = (hheap st2)(hnext st2 \<mapsto> Arr rs)"
    by (simp_all add: st4_def)
  have r: "rebuilt st4 v = (if v = ?x then Ref (hnext st2) else rebuilt st2 v)" for v
    by (simp add: rebuilt_def m)
  have u: "unfinished st4 = unfinished st2 - {?x}"
    by (auto simp: unfinished_iff m split: if_splits)
  have bound: "a < hnext st2" if "map_of (hcache st2) (DNode k') = Some (Ref a)" for k' a
    using ok2 that unfolding hstate_ok_def by blast
  have ok4: "hstate_ok d st4"
    unfolding hstate_ok_def
  proof (intro conjI allI impI)
    fix p r' assume "map_of (hcache st4) (DPrim p) = Some r'"
    then show "r' = Prim p" using ok2 by (simp add: m hstate_ok_def)
  next
    fix k' r' assume a: "map_of (hcache st4) (DNode k') = Some r'"
    show "(\<exists>a. r' = Ref a \<and> a < hnext st4)
        \<or> (r' = Prim JUndefined \<and> (\<exists>ks. map_of d k' = Some (NArr ks)))"
    proof (cases "k' = k")
      case True
      with a show ?thesis by (auto simp: m n)
    next
      case False
      with a have "map_of (hcache st2) (DNode k') = Some r'" by (simp add: m)
      with ok2 have "(\<exists>a. r' = Ref a \<and> a < hnext st2)
        \<or> (r' = Prim JUndefined \<and> (\<exists>ks. map_of d k' = Some (NArr ks)))"
        unfolding hstate_ok_def by blast
      then show ?thesis by (auto simp: n)
    qed
  next
    fix k1 k2 a
    assume a: "map_of (hcache st4) (DNode k1) = Some (Ref a) \<and> map_of (hcache st4) (DNode k2) = Some (Ref a)"
    show "k1 = k2"
    proof (cases "k1 = k \<or> k2 = k")
      case True
      with a bound show ?thesis by (auto simp: m split: if_splits)
    next
      case False
      with a have "map_of (hcache st2) (DNode k1) = Some (Ref a)
          \<and> map_of (hcache st2) (DNode k2) = Some (Ref a)"
        by (simp add: m)
      with ok2 show ?thesis unfolding hstate_ok_def by blast
    qed
  next
    fix a assume "hnext st4 \<le> a"
    then show "hheap st4 a = None" using ok2 by (simp add: n hp hstate_ok_def)
  qed
  have xc: "?x \<notin> set (map (lookup d) ks)"
    using cs xu2 by auto
  have compx: "hcomplete d st4 ?x"
  proof -
    have "lookup d k' \<noteq> ?x" if "k' \<in> set ks" for k'
      using xc that by force
    then have "map (rebuilt st4 \<circ> lookup d) ks = rs"
      unfolding rs by (simp add: r)
    moreover have "set (dchildren d ?x) \<subseteq> hcached st4 - unfinished st4"
      using cs by (auto simp: dchildren_def dk c u)
    ultimately show ?thesis
      using x2 by (simp add: hcomplete_def r dk hp c)
  qed
  have compo: "hcomplete d st4 v" if v2: "v \<in> hcached st2" and v1: "v \<notin> hcached ?st1" for v
  proof (rule hcomplete_transfer [OF new [OF v2 v1]])
    have vx: "v \<noteq> ?x" using v1 by auto
    have chx: "w \<noteq> ?x" if "w \<in> set (dchildren d v)" for w
    proof
      assume "w = ?x"
      with that new [OF v2 v1] have "?x \<notin> unfinished st2" by (auto simp: hcomplete_def)
      with xu2 show False by simp
    qed
    show "map_of (hcache st4) w = map_of (hcache st2) w" if "w = v \<or> w \<in> set (dchildren d v)" for w
      using that vx chx by (auto simp: m)
    show "hheap st4 a = hheap st2 a" if "rebuilt st2 v = Ref a" for a
      using hstate_ok_ref_bound [OF ok2 v2 that] by (simp add: hp)
    show "hcached st2 \<subseteq> hcached st4" by (simp add: c)
    show "unfinished st4 \<subseteq> unfinished st2" by (auto simp: u)
  qed
  have "deserialized d R st st4"
    unfolding deserialized_def
  proof (intro conjI ballI allI impI)
    show "hstate_ok d st4" by (rule ok4)
    show "hcached st \<subseteq> hcached st4" using c12 by (auto simp: c)
    show "hcached st4 \<subseteq> R" using sub2 by (simp add: c)
    show "hnext st \<le> hnext st4" using nx by (simp add: n)
  next
    fix v assume v: "v \<in> hcached st"
    then have "v \<noteq> ?x" using xn by auto
    moreover have "map_of (hcache st2) v = map_of (hcache ?st1) v" using v by (intro same) simp
    ultimately show "map_of (hcache st4) v = map_of (hcache st) v"
      using v xn by (simp add: m map_of_add_hentry)
  next
    fix a assume "a < hnext st"
    then show "hheap st4 a = hheap st a" using nx heap [of a] by (simp add: hp)
  next
    fix v assume "v \<in> hcached st4 - hcached st"
    then show "hcomplete d st4 v"
      using compx compo [of v] by (cases "v = ?x") (auto simp: c)
  qed
  then show ?thesis using x2 by (simp add: c r u)
qed


lemma obj_start:
  assumes ok: "hstate_ok d st" and xn: "DNode k \<notin> hcached st" and dk: "map_of d k = Some (NObj kvs)"
  defines "st3 \<equiv> set_cache_value (DNode k) (Ref (hnext st))
                ((add_hentry (DNode k) st)\<lparr>hheap := (hheap st)(hnext st \<mapsto> Obj []),
                                            hnext := Suc (hnext st)\<rparr>)"
  shows "hstate_ok d st3"
    and "unfinished st3 = unfinished st"
    and "hcached st3 = insert (DNode k) (hcached st)"
    and "hnext st3 = Suc (hnext st)"
    and "hheap st3 = (hheap st)(hnext st \<mapsto> Obj [])"
    and "\<And>key. map_of (hcache st3) key =
           (if key = DNode k then Some (Ref (hnext st)) else map_of (hcache st) key)"
proof -
  show m: "map_of (hcache st3) key =
           (if key = DNode k then Some (Ref (hnext st)) else map_of (hcache st) key)" for key
    using xn by (simp add: st3_def map_of_set_cache_value add_hentry_def map_add_def hcached_iff
        split: option.splits)
  show c: "hcached st3 = insert (DNode k) (hcached st)" and n: "hnext st3 = Suc (hnext st)"
    and hp: "hheap st3 = (hheap st)(hnext st \<mapsto> Obj [])"
    by (simp_all add: st3_def)
  have xm: "map_of (hcache st) (DNode k) = None" using xn by (simp add: hcached_iff)
  show "unfinished st3 = unfinished st"
    by (auto simp: unfinished_iff m xm split: if_splits)
  have bound: "a < hnext st" if "map_of (hcache st) (DNode k') = Some (Ref a)" for k' a
    using ok that unfolding hstate_ok_def by blast
  show "hstate_ok d st3"
    unfolding hstate_ok_def
  proof (intro conjI allI impI)
    fix p r' assume "map_of (hcache st3) (DPrim p) = Some r'"
    then show "r' = Prim p" using ok by (simp add: m hstate_ok_def)
  next
    fix k' r' assume a: "map_of (hcache st3) (DNode k') = Some r'"
    show "(\<exists>a. r' = Ref a \<and> a < hnext st3)
        \<or> (r' = Prim JUndefined \<and> (\<exists>ks. map_of d k' = Some (NArr ks)))"
    proof (cases "k' = k")
      case True
      with a show ?thesis by (auto simp: m n)
    next
      case False
      with a have "map_of (hcache st) (DNode k') = Some r'" by (simp add: m)
      with ok have "(\<exists>a. r' = Ref a \<and> a < hnext st)
        \<or> (r' = Prim JUndefined \<and> (\<exists>ks. map_of d k' = Some (NArr ks)))"
        unfolding hstate_ok_def by blast
      then show ?thesis by (auto simp: n)
    qed
  next
    fix k1 k2 a
    assume a: "map_of (hcache st3) (DNode k1) = Some (Ref a) \<and> map_of (hcache st3) (DNode k2) = Some (Ref a)"
    show "k1 = k2"
    proof (cases "k1 = k \<or> k2 = k")
      case True
      with a bound show ?thesis by (auto simp: m split: if_splits)
    next
      case False
      with a have "map_of (hcache st) (DNode k1) = Some (Ref a)
          \<and> map_of (hcache st) (DNode k2) = Some (Ref a)"
        by (simp add: m)
      with ok show ?thesis unfolding hstate_ok_def by blast
    qed
  next
    fix a assume "hnext st3 \<le> a"
    then show "hheap st3 a = None" using ok by (simp add: n hp hstate_ok_def)
  qed
qed

lemma zip_fst_map_lookup:
  "zip (map fst kvs) (map (f \<circ> (\<lambda>(k, v). g v)) kvs) = map (\<lambda>(k, v). (k, f (g v))) kvs"
  by (induction kvs) auto

lemma obj_finish:
  assumes ok: "hstate_ok d st" and sub: "hcached st \<subseteq> R" and xn: "DNode k \<notin> hcached st"
    and dk: "map_of d k = Some (NObj kvs)"
    and s: "deserialized d R
              (set_cache_value (DNode k) (Ref (hnext st))
                ((add_hentry (DNode k) st)\<lparr>hheap := (hheap st)(hnext st \<mapsto> Obj []),
                                            hnext := Suc (hnext st)\<rparr>)) st4"
    and cs: "set (map (\<lambda>(k, v). lookup d v) kvs) \<subseteq> hcached st4 - unfinished st4"
    and rs: "rs = map (rebuilt st4) (map (\<lambda>(k, v). lookup d v) kvs)"
  defines "st5 \<equiv> st4\<lparr>hheap := (hheap st4)(hnext st \<mapsto> Obj (assigned (zip (map fst kvs) rs)))\<rparr>"
  shows "deserialized d R st st5 \<and> DNode k \<in> hcached st5 \<and> DNode k \<notin> unfinished st5
       \<and> Ref (hnext st) = rebuilt st5 (DNode k) \<and> hcached st5 = hcached st4"
proof -
  let ?x = "DNode k"
  define st3 where "st3 = set_cache_value (DNode k) (Ref (hnext st))
                ((add_hentry (DNode k) st)\<lparr>hheap := (hheap st)(hnext st \<mapsto> Obj []),
                                            hnext := Suc (hnext st)\<rparr>)"
  note st = obj_start [OF ok xn dk, folded st3_def]
  from s have ok4: "hstate_ok d st4" and sub4: "hcached st4 \<subseteq> R"
    and c34: "hcached st3 \<subseteq> hcached st4"
    and same: "\<And>v. v \<in> hcached st3 \<Longrightarrow> map_of (hcache st4) v = map_of (hcache st3) v"
    and nx: "hnext st3 \<le> hnext st4"
    and heap: "\<And>a. a < hnext st3 \<Longrightarrow> hheap st4 a = hheap st3 a"
    and new: "\<And>v. v \<in> hcached st4 \<Longrightarrow> v \<notin> hcached st3 \<Longrightarrow> hcomplete d st4 v"
    unfolding st3_def [symmetric] by (auto simp: deserialized_def)
  have x4: "?x \<in> hcached st4" using c34 st(3) by auto
  have mx: "map_of (hcache st4) ?x = Some (Ref (hnext st))"
    using same [of ?x] st(3,6) by simp
  have rx: "rebuilt st4 ?x = Ref (hnext st)" by (simp add: rebuilt_def mx)
  have xu: "?x \<notin> unfinished st4" by (simp add: unfinished_iff mx)
  have [simp]: "hcache st5 = hcache st4" "hnext st5 = hnext st4"
    and hp: "hheap st5 = (hheap st4)(hnext st \<mapsto> Obj (assigned (zip (map fst kvs) rs)))"
    by (simp_all add: st5_def)
  have c5 [simp]: "hcached st5 = hcached st4" "rebuilt st5 = rebuilt st4" "unfinished st5 = unfinished st4"
    by (simp_all add: st5_def)
  have lt: "hnext st < hnext st4" using nx st(4) by simp
  have ok5: "hstate_ok d st5"
    using ok4 lt unfolding hstate_ok_def by (auto simp: hp)
  have compx: "hcomplete d st5 ?x"
  proof -
    have "set (dchildren d ?x) \<subseteq> hcached st5 - unfinished st5"
      using cs by (simp add: dchildren_def dk)
    then show ?thesis
      using x4 by (simp add: hcomplete_def rx dk hp rs zip_fst_map_lookup)
  qed
  have compo: "hcomplete d st5 v" if v4: "v \<in> hcached st4" and v3: "v \<notin> hcached st3" for v
  proof (rule hcomplete_transfer [OF new [OF v4 v3]])
    have vx: "v \<noteq> ?x" using v3 st(3) by auto
    show "map_of (hcache st5) w = map_of (hcache st4) w" for w by simp
    show "hheap st5 a = hheap st4 a" if r: "rebuilt st4 v = Ref a" for a
    proof -
      have "a \<noteq> hnext st"
      proof
        assume e: "a = hnext st"
        from r rebuilt_cached [OF v4] have mv: "map_of (hcache st4) v = Some (Ref (hnext st))"
          by (simp add: e)
        show False
        proof (cases v)
          case (DPrim p)
          with mv ok4 show ?thesis by (auto simp: hstate_ok_def)
        next
          case (DNode k')
          with mv mx ok4 have "k' = k" unfolding hstate_ok_def by blast
          with DNode vx show ?thesis by simp
        qed
      qed
      then show ?thesis by (simp add: hp)
    qed
    show "hcached st4 \<subseteq> hcached st5" by simp
    show "unfinished st5 \<subseteq> unfinished st4" by simp
  qed
  have "deserialized d R st st5"
    unfolding deserialized_def
  proof (intro conjI ballI allI impI)
    show "hstate_ok d st5" by (rule ok5)
    show "hcached st \<subseteq> hcached st5" using c34 st(3) by auto
    show "hcached st5 \<subseteq> R" using sub4 by simp
    show "hnext st \<le> hnext st5" using lt by simp
  next
    fix v assume v: "v \<in> hcached st"
    then have "v \<noteq> ?x" using xn by auto
    moreover have "map_of (hcache st4) v = map_of (hcache st3) v" using v st(3) by (intro same) simp
    ultimately show "map_of (hcache st5) v = map_of (hcache st) v"
      by (simp add: st(6))
  next
    fix a assume a: "a < hnext st"
    then have "hheap st4 a = hheap st3 a" using st(4) by (intro heap) simp
    with a show "hheap st5 a = hheap st a" by (simp add: hp st(5))
  next
    fix v assume "v \<in> hcached st5 - hcached st"
    then show "hcomplete d st5 v"
      using compx compo [of v] st(3) by (cases "v = ?x") auto
  qed
  then show ?thesis using x4 xu rx by simp
qed

lemma traverse_each_Cons:
  assumes "traverse_each n ch arr seen opn (x # xs) = Some (seen', True)"
  obtains seen1 where "traverse n ch arr seen opn x = Some (seen1, True)"
    and "traverse_each n ch arr seen1 opn xs = Some (seen', True)"
  using assms by (auto split: option.splits)

lemma deserialize_each_correct:
  assumes IH: "\<And>st x seen seen'. hstate_ok d st \<Longrightarrow> hcached st \<subseteq> R \<Longrightarrow> hcached st = set seen \<Longrightarrow>
       unfinished st = set opn \<Longrightarrow> x \<in> R \<Longrightarrow>
       traverse n (dchildren d) (is_darray d) seen opn x = Some (seen', True) \<Longrightarrow>
       \<exists>st' r. deserialize n d st x = Some (Inr (st', r)) \<and> deserialized d R st st'
              \<and> x \<in> hcached st' \<and> x \<notin> unfinished st' \<and> r = rebuilt st' x
              \<and> hcached st' = set seen'"
  shows "hstate_ok d st \<Longrightarrow> hcached st \<subseteq> R \<Longrightarrow> hcached st = set seen \<Longrightarrow>
       unfinished st = set opn \<Longrightarrow> set xs \<subseteq> R \<Longrightarrow>
       traverse_each n (dchildren d) (is_darray d) seen opn xs = Some (seen', True) \<Longrightarrow>
       \<exists>st' rs. deserialize_each n d st xs = Some (Inr (st', rs)) \<and> deserialized d R st st'
              \<and> set xs \<subseteq> hcached st' - unfinished st' \<and> rs = map (rebuilt st') xs
              \<and> hcached st' = set seen'"
proof (induction xs arbitrary: st seen)
  case Nil
  then show ?case by (simp add: deserialized_refl)
next
  case (Cons x xs)
  from Cons.prems(5) have xR: "x \<in> R" and xsR: "set xs \<subseteq> R" by auto
  from Cons.prems(6) obtain seen1
    where t1: "traverse n (dchildren d) (is_darray d) seen opn x = Some (seen1, True)"
      and t2: "traverse_each n (dchildren d) (is_darray d) seen1 opn xs = Some (seen', True)"
    by (rule traverse_each_Cons)
  from IH [OF Cons.prems(1,2,3,4) xR t1]
  obtain st1 r where s1: "deserialize n d st x = Some (Inr (st1, r))"
    and p1: "deserialized d R st st1" and x1: "x \<in> hcached st1" and xu1: "x \<notin> unfinished st1"
    and r: "r = rebuilt st1 x" and c1: "hcached st1 = set seen1"
    by blast
  from p1 have ok1: "hstate_ok d st1" and sub1: "hcached st1 \<subseteq> R"
    by (auto simp: deserialized_def)
  have u1: "unfinished st1 = set opn"
    using deserialized_unfinished [OF p1] Cons.prems(4) by simp
  from Cons.IH [OF ok1 sub1 c1 u1 xsR t2]
  obtain st2 rs where s2: "deserialize_each n d st1 xs = Some (Inr (st2, rs))"
    and p2: "deserialized d R st1 st2" and x2: "set xs \<subseteq> hcached st2 - unfinished st2"
    and rs: "rs = map (rebuilt st2) xs" and c2: "hcached st2 = set seen'"
    by blast
  from p2 have same: "\<And>v. v \<in> hcached st1 \<Longrightarrow> map_of (hcache st2) v = map_of (hcache st1) v"
    and c12: "hcached st1 \<subseteq> hcached st2"
    unfolding deserialized_def by blast+
  have rx: "rebuilt st2 x = r" unfolding r by (rule rebuilt_same) (rule same [OF x1])
  have xin: "x \<in> hcached st2" using x1 c12 by blast
  have xun: "x \<notin> unfinished st2" using xu1 deserialized_unfinished [OF p2] by simp
  show ?case
  proof (intro exI conjI)
    show "deserialize_each n d st (x # xs) = Some (Inr (st2, r # rs))"
      using s1 s2 by simp
    show "deserialized d R st st2" by (rule deserialized_trans [OF p1 p2])
    show "set (x # xs) \<subseteq> hcached st2 - unfinished st2"
      using xin xun x2 by simp
    show "r # rs = map (rebuilt st2) (x # xs)"
      using rx rs by simp
    show "hcached st2 = set seen'" by (rule c2)
  qed
qed

lemma traverse_hit:
  "x \<in> set seen \<Longrightarrow> traverse (Suc n) ch arr seen opn x = Some (seen, x \<notin> set opn)"
  by simp

lemma traverse_miss:
  "x \<notin> set seen \<Longrightarrow> traverse (Suc n) ch arr seen opn x
     = traverse_each n ch arr (x # seen) (if arr x then x # opn else opn) (ch x)"
  by simp

lemma deserialize_correct:
  assumes cl: "dclosed d R"
  shows "hstate_ok d st \<Longrightarrow> hcached st \<subseteq> R \<Longrightarrow> hcached st = set seen \<Longrightarrow>
       unfinished st = set opn \<Longrightarrow> x \<in> R \<Longrightarrow>
       traverse n (dchildren d) (is_darray d) seen opn x = Some (seen', True) \<Longrightarrow>
       \<exists>st' r. deserialize n d st x = Some (Inr (st', r)) \<and> deserialized d R st st'
              \<and> x \<in> hcached st' \<and> x \<notin> unfinished st' \<and> r = rebuilt st' x
              \<and> hcached st' = set seen'"
proof (induction n arbitrary: st x seen opn seen')
  case 0
  then show ?case by simp
next
  case (Suc n)
  have each: "\<exists>st' rs. deserialize_each n d s xs = Some (Inr (st', rs)) \<and> deserialized d R s st'
              \<and> set xs \<subseteq> hcached st' - unfinished st' \<and> rs = map (rebuilt st') xs
              \<and> hcached st' = set sn'"
    if a: "hstate_ok d s" "hcached s \<subseteq> R" "hcached s = set sn" "unfinished s = set op" "set xs \<subseteq> R"
      "traverse_each n (dchildren d) (is_darray d) sn op xs = Some (sn', True)" for s xs sn op sn'
  proof (rule deserialize_each_correct [OF _ a])
    fix st x seen seen'
    assume "hstate_ok d st" "hcached st \<subseteq> R" "hcached st = set seen" "unfinished st = set op" "x \<in> R"
      "traverse n (dchildren d) (is_darray d) seen op x = Some (seen', True)"
    then show "\<exists>st' r. deserialize n d st x = Some (Inr (st', r)) \<and> deserialized d R st st'
              \<and> x \<in> hcached st' \<and> x \<notin> unfinished st' \<and> r = rebuilt st' x
              \<and> hcached st' = set seen'"
      by (rule Suc.IH)
  qed
  note ok = Suc.prems(1) and sub = Suc.prems(2) and cs = Suc.prems(3) and us = Suc.prems(4)
    and xR = Suc.prems(5) and tr = Suc.prems(6)
  from cl xR have all: "set (dchildren d x) \<subseteq> R
                 \<and> x \<noteq> DPrim JNull
                 \<and> (\<forall>k. x = DNode k \<longrightarrow>
                        (\<exists>ks. map_of d k = Some (NArr ks))
                        \<or> (\<exists>kvs. map_of d k = Some (NObj kvs)))"
    unfolding dclosed_def by (rule bspec)
  from all have chR: "set (dchildren d x) \<subseteq> R" and nn: "x \<noteq> DPrim JNull"
    by (rule conjunct1, rule conjunct2 [THEN conjunct1])
  from all have node: "(\<exists>ks. map_of d k = Some (NArr ks))
                        \<or> (\<exists>kvs. map_of d k = Some (NObj kvs))" if "x = DNode k" for k
    using that by blast
  show ?case
  proof (cases "map_of (hcache st) x")
    case (Some r)
    then have xc: "x \<in> hcached st" by (simp add: hcached_iff)
    then have xs: "x \<in> set seen" using cs by simp
    from tr have "seen' = seen" and "x \<notin> set opn"
      unfolding traverse_hit [OF xs] by simp_all
    then have "x \<notin> unfinished st" and c: "hcached st = set seen'" using us cs by simp_all
    moreover have "r = rebuilt st x" using Some by (simp add: rebuilt_def)
    ultimately show ?thesis
      using Some xc ok sub by (simp add: deserialize_hit deserialized_refl del: deserialize.simps)
  next
    case None
    then have xn: "x \<notin> hcached st" by (simp add: hcached_iff)
    then have xs: "x \<notin> set seen" using cs by simp
    note tr' = tr [unfolded traverse_miss [OF xs]]
    show ?thesis
    proof (cases x)
      case (DPrim p)
      with nn have p: "p \<noteq> JNull" by simp
      from tr' DPrim have "seen' = x # seen" by (simp add: dchildren_def)
      then have "set seen' = insert (DPrim p) (hcached st)" using cs DPrim by simp
      with prim_step [OF ok sub _ _, of p] xR xn DPrim
      show ?thesis
        using None p by (simp add: deserialize_prim del: deserialize.simps)
    next
      case (DNode k)
      note xn' = xn [unfolded DNode] and None' = None [unfolded DNode]
      from node [OF DNode] show ?thesis
      proof (elim disjE exE)
        fix ks assume dk: "map_of d k = Some (NArr ks)"
        let ?st1 = "add_hentry (DNode k) st"
        note a1 = arr_start [OF ok xn' dk]
        have ch: "dchildren d x = map (lookup d) ks" by (simp add: DNode dchildren_def dk)
        have ar: "is_darray d x" by (simp add: DNode is_darray_def dk)
        have csR: "set (map (lookup d) ks) \<subseteq> R" using chR ch by simp
        have sub1: "hcached ?st1 \<subseteq> R" using sub xR DNode by simp
        have c1: "hcached ?st1 = set (x # seen)" using cs DNode by simp
        have u1: "unfinished ?st1 = set (x # opn)" using us a1(2) DNode by simp
        from tr' have t1: "traverse_each n (dchildren d) (is_darray d) (x # seen) (x # opn)
                             (map (lookup d) ks) = Some (seen', True)"
          by (simp add: ar ch)
        from each [OF a1(1) sub1 c1 u1 csR t1]
        obtain st2 rs where s2: "deserialize_each n d ?st1 (map (lookup d) ks) = Some (Inr (st2, rs))"
          and p2: "deserialized d R ?st1 st2"
          and c2: "set (map (lookup d) ks) \<subseteq> hcached st2 - unfinished st2"
          and rs: "rs = map (rebuilt st2) (map (lookup d) ks)"
          and h2: "hcached st2 = set seen'"
          by blast
        from arr_finish [OF ok sub xn' dk p2 c2 rs] h2
        show ?thesis
          using None' dk s2 by (simp add: DNode deserialize_arr del: deserialize.simps)
      next
        fix kvs assume dk: "map_of d k = Some (NObj kvs)"
        let ?st3 = "set_cache_value (DNode k) (Ref (hnext st))
                ((add_hentry (DNode k) st)\<lparr>hheap := (hheap st)(hnext st \<mapsto> Obj []),
                                            hnext := Suc (hnext st)\<rparr>)"
        note o = obj_start [OF ok xn' dk]
        have ch: "dchildren d x = map (\<lambda>(k, v). lookup d v) kvs" by (simp add: DNode dchildren_def dk)
        have ar: "\<not> is_darray d x" by (simp add: DNode is_darray_def dk)
        have csR: "set (map (\<lambda>(k, v). lookup d v) kvs) \<subseteq> R" using chR ch by simp
        have sub3: "hcached ?st3 \<subseteq> R" using sub xR DNode by (simp add: o(3))
        have c3: "hcached ?st3 = set (x # seen)" using cs DNode by (simp add: o(3))
        have u3: "unfinished ?st3 = set opn" using us by (simp add: o(2))
        from tr' have t3: "traverse_each n (dchildren d) (is_darray d) (x # seen) opn
                             (map (\<lambda>(k, v). lookup d v) kvs) = Some (seen', True)"
          by (simp add: ar ch)
        from each [OF o(1) sub3 c3 u3 csR t3]
        obtain st4 rs where s4: "deserialize_each n d ?st3 (map (\<lambda>(k, v). lookup d v) kvs)
              = Some (Inr (st4, rs))"
          and p4: "deserialized d R ?st3 st4"
          and c4: "set (map (\<lambda>(k, v). lookup d v) kvs) \<subseteq> hcached st4 - unfinished st4"
          and rs: "rs = map (rebuilt st4) (map (\<lambda>(k, v). lookup d v) kvs)"
          and h4: "hcached st4 = set seen'"
          by blast
        from obj_finish [OF ok sub xn' dk p4 c4 rs] h4
        show ?thesis
          using None' dk s4 by (simp add: DNode deserialize_obj del: deserialize.simps)
      qed
    qed
  qed
qed

lemma serialize_fresh_id:
  assumes "map_of (cache st) x = None" and "serialize n h st x = Some (Inr (st', i))"
  shows "i = nextId st"
proof (cases n)
  case 0
  with assms show ?thesis by simp
next
  case (Suc m)
  from assms(2) show ?thesis
    unfolding Suc serialize_miss [OF assms(1)]
    by (auto split: jsval.splits option.splits jsobj.splits sum.splits if_splits)
qed

lemma closed_reach:
  assumes "\<forall>x \<in> reach h v. x \<noteq> Prim JNull \<and> (\<forall>a. x = Ref a \<longrightarrow> h a \<noteq> None)"
  shows "closed h (reach h v)"
  unfolding closed_def using assms by (auto intro: reach.child)

lemma dehydrate_state:
  assumes fin: "finite (reach h v)" and cl: "closed h (reach h v)" and fuel: "card (reach h v) < fuel"
  shows "\<exists>st. serialize fuel h \<lparr>cache = [], nextId = 0\<rparr> v = Some (Inr (st, 0))
           \<and> dehydrateValue fuel h v = Some (Inr (to_record st))
           \<and> dstate_ok st \<and> cached st = reach h v \<and> (\<forall>y \<in> cached st. complete h st y)
           \<and> idof st v = 0"
proof -
  let ?st0 = "\<lparr>cache = [], nextId = 0\<rparr>"
  have ok0: "dstate_ok ?st0" by (simp add: dstate_ok_def)
  have c0: "cached ?st0 = {}" by (simp add: cached_def)
  from serialize_correct [OF fin cl ok0, of v fuel] fuel
  obtain st i where s: "serialize fuel h ?st0 v = Some (Inr (st, i))"
    and p: "serialized h (reach h v) ?st0 st" and vc: "v \<in> cached st" and i: "idof st v = i"
    by (auto simp: c0 reach.root)
  have "i = nextId ?st0" by (rule serialize_fresh_id [OF _ s]) simp
  then have i0: "i = 0" by simp
  from p have ok: "dstate_ok st" and sub: "cached st \<subseteq> reach h v"
    and comp: "\<And>y. y \<in> cached st \<Longrightarrow> complete h st y"
    by (auto simp: serialized_def cached_def)
  have "x \<in> cached st" if "x \<in> reach h v" for x
    using that
  proof (induction rule: reach.induct)
    case root
    show ?case by (rule vc)
  next
    case (child x y)
    from comp [OF child.IH] child.hyps(2) show ?case by (auto simp: complete_def)
  qed
  with sub have eq: "cached st = reach h v" by auto
  have "dehydrateValue fuel h v = Some (Inr (to_record st))"
    by (simp add: dehydrateValue_def s to_record_def)
  with s ok eq comp i i0 show ?thesis by auto
qed

lemma cached_entry:
  assumes "x \<in> cached st"
  obtains e where "map_of (cache st) x = Some e" and "(x, e) \<in> set (cache st)"
proof -
  from assms obtain e0 where "(x, e0) \<in> set (cache st)" by (auto simp: cached_def)
  then have "map_of (cache st) x \<noteq> None" by (metis map_of_eq_None_iff fst_conv imageI)
  then obtain e where e: "map_of (cache st) x = Some e" by auto
  then have "(x, e) \<in> set (cache st)" by (rule map_of_SomeD)
  with e that show ?thesis by blast
qed

lemma fst_to_record: "map fst (to_record st) = map (\<lambda>(x, e). entry_id e) (cache st)"
  by (simp add: to_record_def case_prod_beta comp_def)

lemma distinct_to_record: "dstate_ok st \<Longrightarrow> distinct (map fst (to_record st))"
  by (simp add: fst_to_record dstate_ok_def)

lemma length_to_record:
  assumes "dstate_ok st"
  shows "length (to_record st) = card (cached st)"
proof -
  from assms have "distinct (map fst (cache st))" by (simp add: dstate_ok_def)
  then have "card (set (map fst (cache st))) = length (cache st)"
    using distinct_card by fastforce
  then show ?thesis by (simp add: to_record_def cached_def)
qed

lemma map_of_to_record:
  assumes ok: "dstate_ok st" and x: "x \<in> cached st"
  shows "map_of (to_record st) (idof st x) = Some (nodeof st x)"
proof -
  from x obtain e where e: "map_of (cache st) x = Some e" and m: "(x, e) \<in> set (cache st)"
    by (rule cached_entry)
  from m have "(entry_id e, entry_value e) \<in> set (to_record st)"
    by (force simp: to_record_def)
  with distinct_to_record [OF ok] have "map_of (to_record st) (entry_id e) = Some (entry_value e)"
    by (rule map_of_is_SomeI)
  then show ?thesis by (simp add: idof_def nodeof_def e)
qed

lemma inj_on_idof:
  assumes ok: "dstate_ok st"
  shows "inj_on (idof st) (cached st)"
proof (rule inj_onI)
  fix x y assume x: "x \<in> cached st" and y: "y \<in> cached st" and eq: "idof st x = idof st y"
  from x obtain e where e: "map_of (cache st) x = Some e" and m: "(x, e) \<in> set (cache st)"
    by (rule cached_entry)
  from y obtain e' where e': "map_of (cache st) y = Some e'" and m': "(y, e') \<in> set (cache st)"
    by (rule cached_entry)
  from ok have "inj_on (\<lambda>(x, e). entry_id e) (set (cache st))"
    by (simp add: dstate_ok_def distinct_map)
  moreover from eq have "entry_id e = entry_id e'" by (simp add: idof_def e e')
  ultimately have "(x, e) = (y, e')" using m m'
    by (intro inj_onD [of "\<lambda>(x, e). entry_id e" "set (cache st)"]) simp_all
  then show "x = y" by simp
qed

text \<open>
  C10, as the code has it. The cache of \<^verbatim>\<open>dehydrateValue\<close> is a \<^verbatim>\<open>Map\<close>, and a primitive is
  its own key. Let no \<^verbatim>\<open>null\<close> be reached from the input. Whenever the same primitive \<open>p\<close>
  is the value of a property \<open>k1\<close> of an object and of a property \<open>k2\<close> of the same or
  of another object reached from the input (properties that \<^verbatim>\<open>serialize\<close> stores: not
  named \<^verbatim>\<open>checker\<close> or \<^verbatim>\<open>__proto__\<close>), the nodes of the two objects give \<open>k1\<close> and \<open>k2\<close>
  the same id \<open>j\<close>, and the entry \<open>j\<close> of the record is \<open>p\<close>. The two nodes are one entry
  exactly when the two objects are one. The record has one entry for each value reached
  from the input (its ids are distinct and there are as many as there are values), so
  no second entry is made for a second occurrence.
\<close>

theorem shared_primitive_one_entry:
  assumes fin: "finite (reach h v)" and cl: "closed h (reach h v)"
    and fuel: "card (reach h v) < fuel"
    and a1: "Ref a1 \<in> reach h v" and h1: "h a1 = Some (Obj kvs1)"
    and k1: "(k1, Prim p) \<in> set (assigned (own_properties kvs1))"
    and a2: "Ref a2 \<in> reach h v" and h2: "h a2 = Some (Obj kvs2)"
    and k2: "(k2, Prim p) \<in> set (assigned (own_properties kvs2))"
  shows "\<exists>d i1 i2 props1 props2 j.
           dehydrateValue fuel h v = Some (Inr d)
           \<and> distinct (map fst d) \<and> length d = card (reach h v)
           \<and> map_of d i1 = Some (NObj props1) \<and> map_of d i2 = Some (NObj props2)
           \<and> (i1 = i2) = (a1 = a2)
           \<and> (k1, j) \<in> set props1 \<and> (k2, j) \<in> set props2
           \<and> map_of d j = Some (NPrim p)"
proof -
  from dehydrate_state [OF fin cl fuel] obtain st where
    d: "dehydrateValue fuel h v = Some (Inr (to_record st))"
    and ok: "dstate_ok st" and eq: "cached st = reach h v"
    and comp: "\<And>y. y \<in> cached st \<Longrightarrow> complete h st y"
    by blast
  let ?props1 = "assigned (map (\<lambda>(k, y). (k, idof st y)) (own_properties kvs1))"
  let ?props2 = "assigned (map (\<lambda>(k, y). (k, idof st y)) (own_properties kvs2))"
  from a1 a2 eq have c1: "Ref a1 \<in> cached st" and c2: "Ref a2 \<in> cached st" by simp_all
  from comp [OF c1] have n1: "nodeof st (Ref a1) = NObj ?props1"
    and ch: "set (children h (Ref a1)) \<subseteq> cached st"
    by (simp_all add: complete_def encode_def h1)
  from comp [OF c2] have n2: "nodeof st (Ref a2) = NObj ?props2"
    by (simp add: complete_def encode_def h2)
  from k1 have "Prim p \<in> set (children h (Ref a1))"
    by (force simp: children_def h1 assigned_def)
  with ch have pc: "Prim p \<in> cached st" by auto
  from comp [OF pc] have pnode: "nodeof st (Prim p) = NPrim p"
    by (simp add: complete_def encode_def)
  have 1: "map_of (to_record st) (idof st (Ref a1)) = Some (NObj ?props1)"
    using map_of_to_record [OF ok c1] n1 by simp
  have 2: "map_of (to_record st) (idof st (Ref a2)) = Some (NObj ?props2)"
    using map_of_to_record [OF ok c2] n2 by simp
  have 3: "map_of (to_record st) (idof st (Prim p)) = Some (NPrim p)"
    using map_of_to_record [OF ok pc] pnode by simp
  have 4: "(k1, idof st (Prim p)) \<in> set ?props1" using k1 by (force simp: assigned_def)
  have 5: "(k2, idof st (Prim p)) \<in> set ?props2" using k2 by (force simp: assigned_def)
  have 6: "length (to_record st) = card (reach h v)"
    using length_to_record [OF ok] eq by simp
  have 7: "(idof st (Ref a1) = idof st (Ref a2)) = (a1 = a2)"
    using inj_on_idof [OF ok] c1 c2 by (auto dest: inj_onD)
  from d distinct_to_record [OF ok] 1 2 3 4 5 6 7 show ?thesis by blast
qed

lemma reach_subset:
  assumes "v \<in> S" and "\<And>x. x \<in> S \<Longrightarrow> set (children h x) \<subseteq> S"
  shows "reach h v \<subseteq> S"
proof
  fix x assume "x \<in> reach h v"
  then show "x \<in> S"
    by (induction rule: reach.induct) (use assms in auto)
qed

lemma reach_two_strings:
  "reach (Map.empty(0 \<mapsto> Obj [(''a'', Prim (JStr ''x'')), (''o'', Ref 2)],
                    2 \<mapsto> Obj [(''b'', Prim (JStr ''x''))])) (Ref 0)
     = {Ref 0, Ref 2, Prim (JStr ''x'')}"
proof
  let ?h = "Map.empty(0 \<mapsto> Obj [(''a'', Prim (JStr ''x'')), (''o'', Ref 2)],
                      2 \<mapsto> Obj [(''b'', Prim (JStr ''x''))])"
  show "reach ?h (Ref 0) \<subseteq> {Ref 0, Ref 2, Prim (JStr ''x'')}"
    by (rule reach_subset) (auto simp: children_def own_properties_def ignoredKeys_def)
  have 1: "Ref 2 \<in> reach ?h (Ref 0)"
    by (rule reach.child [OF reach.root]) (simp add: children_def own_properties_def ignoredKeys_def)
  have 2: "Prim (JStr ''x'') \<in> reach ?h (Ref 0)"
    by (rule reach.child [OF reach.root]) (simp add: children_def own_properties_def ignoredKeys_def)
  from 1 2 show "{Ref 0, Ref 2, Prim (JStr ''x'')} \<subseteq> reach ?h (Ref 0)" by (simp add: reach.root)
qed

theorem shared_primitive_one_entry_witness:
  "\<exists>d i1 i2 props1 props2 j.
     dehydrateValue 4 (Map.empty(0 \<mapsto> Obj [(''a'', Prim (JStr ''x'')), (''o'', Ref 2)],
                                 2 \<mapsto> Obj [(''b'', Prim (JStr ''x''))])) (Ref 0)
       = Some (Inr d)
     \<and> distinct (map fst d) \<and> length d = 3
     \<and> map_of d i1 = Some (NObj props1) \<and> map_of d i2 = Some (NObj props2)
     \<and> i1 \<noteq> i2
     \<and> (''a'', j) \<in> set props1 \<and> (''b'', j) \<in> set props2
     \<and> map_of d j = Some (NPrim (JStr ''x''))"
proof -
  let ?h = "Map.empty(0 \<mapsto> Obj [(''a'', Prim (JStr ''x'')), (''o'', Ref 2)],
                      2 \<mapsto> Obj [(''b'', Prim (JStr ''x''))])"
  have fin: "finite (reach ?h (Ref 0))" unfolding reach_two_strings by simp
  have cl: "closed ?h (reach ?h (Ref 0))"
    unfolding reach_two_strings
    by (auto simp: closed_def children_def own_properties_def ignoredKeys_def)
  have card: "card (reach ?h (Ref 0)) = 3" unfolding reach_two_strings by simp
  then have fuel: "card (reach ?h (Ref 0)) < 4" by simp
  have k1: "(''a'', Prim (JStr ''x''))
              \<in> set (assigned (own_properties [(''a'', Prim (JStr ''x'')), (''o'', Ref 2)]))"
    and k2: "(''b'', Prim (JStr ''x'')) \<in> set (assigned (own_properties [(''b'', Prim (JStr ''x''))]))"
    by (simp_all add: assigned_def own_properties_def ignoredKeys_def)
  from shared_primitive_one_entry [OF fin cl fuel _ _ k1 _ _ k2, of 0 2]
  show ?thesis
    unfolding card by (simp add: reach_two_strings)
qed

text \<open>
  The claim as stated speaks of every input and of any primitive. \<^verbatim>\<open>null\<close> is a primitive;
  in \<^verbatim>\<open>{ a: null, b: null }\<close> it occurs as two property values, and \<^verbatim>\<open>dehydrateValue\<close>
  throws a TypeError at the first of them, with any fuel that lets it come so far:
  there is no output in which the occurrences could share an id.
\<close>

theorem shared_null_counterexample:
  "\<forall>m. dehydrateValue (Suc (Suc m))
          (Map.empty(0 \<mapsto> Obj [(''a'', Prim JNull), (''b'', Prim JNull)])) (Ref 0)
        = Some (Inl TypeError)"
  by (simp add: dehydrateValue_def add_entry_def own_properties_def ignoredKeys_def)

lemma dehydrate_encodes:
  assumes "finite (reach h v)" and "closed h (reach h v)" and "card (reach h v) < fuel"
  shows "\<exists>st. dehydrateValue fuel h v = Some (Inr (to_record st)) \<and> encodes h v st"
  using dehydrate_state [OF assms] unfolding encodes_def by auto

lemma plain_not_null: "plain h v \<Longrightarrow> x \<in> reach h v \<Longrightarrow> x \<noteq> Prim JNull"
  unfolding plain_def by blast

lemma assigned_map_own:
  assumes "''__proto__'' \<notin> fst ` set kvs"
  shows "assigned (map (\<lambda>(k, y). (k, g y)) (own_properties kvs))
           = map (\<lambda>(k, y). (k, g y)) (own_properties kvs)"
  unfolding assigned_def
proof (rule filter_True)
  show "\<forall>x \<in> set (map (\<lambda>(k, y). (k, g y)) (own_properties kvs)). case x of (k, _) \<Rightarrow> k \<noteq> ''__proto__''"
    using assms by (force simp: own_properties_def)
qed

lemma plain_ref:
  assumes "plain h v" and "Ref a \<in> reach h v"
  shows "(\<exists>xs. h a = Some (Arr xs))
         \<or> (\<exists>kvs. h a = Some (Obj kvs) \<and> ''__proto__'' \<notin> fst ` set kvs)"
  using assms unfolding plain_def by blast

lemma plain_closed: "plain h v \<Longrightarrow> closed h (reach h v)"
proof (rule closed_reach, intro ballI conjI allI impI)
  fix x assume "plain h v" "x \<in> reach h v"
  then show "x \<noteq> Prim JNull" by (rule plain_not_null)
next
  fix x a assume "plain h v" "x \<in> reach h v" "x = Ref a"
  then show "h a \<noteq> None" using plain_ref [of h v a] by auto
qed

lemma encodes_map_of:
  assumes e: "encodes h v st" and x: "x \<in> reach h v"
  shows "map_of (to_record st) (idof st x) = Some (encode h (idof st) x)"
proof -
  from e x have "dstate_ok st" "x \<in> cached st" "complete h st x"
    by (auto simp: encodes_def)
  then show ?thesis using map_of_to_record [of st x] by (simp add: complete_def)
qed

lemma lookup_dvalue:
  assumes e: "encodes h v st" and p: "plain h v" and x: "x \<in> reach h v"
  shows "lookup (to_record st) (idof st x) = dvalue_of st x"
proof (cases x)
  case (Prim q)
  then show ?thesis
    using encodes_map_of [OF e x] by (simp add: lookup_def encode_def dvalue_of_def)
next
  case (Ref a)
  with plain_ref [OF p] x
  have "(\<exists>xs. h a = Some (Arr xs)) \<or> (\<exists>kvs. h a = Some (Obj kvs))" by blast
  then show ?thesis
    using encodes_map_of [OF e x] Ref by (auto simp: lookup_def encode_def dvalue_of_def)
qed

lemma dchildren_dvalue:
  assumes e: "encodes h v st" and p: "plain h v" and x: "x \<in> reach h v"
  shows "dchildren (to_record st) (dvalue_of st x) = map (dvalue_of st) (children h x)"
proof (cases x)
  case (Prim q)
  then show ?thesis by (simp add: dchildren_def dvalue_of_def children_def)
next
  case (Ref a)
  have ch: "\<And>y. y \<in> set (children h x) \<Longrightarrow> lookup (to_record st) (idof st y) = dvalue_of st y"
    using lookup_dvalue [OF e p] reach.child [OF x] by blast
  from plain_ref [OF p] x Ref
  consider xs where "h a = Some (Arr xs)"
    | kvs where "h a = Some (Obj kvs)" "''__proto__'' \<notin> fst ` set kvs" by blast
  then show ?thesis
  proof cases
    case 1
    with ch Ref have "\<And>y. y \<in> set xs \<Longrightarrow> lookup (to_record st) (idof st y) = dvalue_of st y"
      by (simp add: children_def)
    then have "map (lookup (to_record st) \<circ> idof st) xs = map (dvalue_of st) xs"
      by (intro map_cong) simp_all
    then show ?thesis
      using encodes_map_of [OF e x] Ref 1
      by (simp add: dchildren_def dvalue_of_def children_def encode_def)
  next
    case 2
    let ?own = "own_properties kvs"
    from ch Ref 2 have "\<And>y. y \<in> snd ` set ?own \<Longrightarrow> lookup (to_record st) (idof st y) = dvalue_of st y"
      by (simp add: children_def)
    then have "map (\<lambda>(k, y). lookup (to_record st) (idof st y)) ?own = map (dvalue_of st \<circ> snd) ?own"
      by (intro map_cong) force+
    moreover have "map_of (to_record st) (idof st x)
                     = Some (NObj (map (\<lambda>(k, y). (k, idof st y)) ?own))"
      using encodes_map_of [OF e x] Ref 2 by (simp add: encode_def assigned_map_own)
    ultimately show ?thesis
      using Ref 2
      by (simp add: dchildren_def dvalue_of_def children_def case_prod_beta comp_def)
  qed
qed

lemma is_darray_dvalue:
  assumes e: "encodes h v st" and p: "plain h v" and x: "x \<in> reach h v"
  shows "is_darray (to_record st) (dvalue_of st x) = is_array h x"
proof (cases x)
  case (Prim q)
  then show ?thesis by (simp add: is_darray_def is_array_def dvalue_of_def)
next
  case (Ref a)
  from plain_ref [OF p] x Ref
  consider xs where "h a = Some (Arr xs)" | kvs where "h a = Some (Obj kvs)" by blast
  then show ?thesis
    using encodes_map_of [OF e x] Ref
    by cases (simp_all add: is_darray_def is_array_def dvalue_of_def encode_def)
qed

lemma inj_on_dvalue:
  assumes e: "encodes h v st"
  shows "inj_on (dvalue_of st) (reach h v)"
proof (rule inj_onI)
  fix x y assume x: "x \<in> reach h v" and y: "y \<in> reach h v" and eq: "dvalue_of st x = dvalue_of st y"
  from e have inj: "inj_on (idof st) (reach h v)"
    using inj_on_idof [of st] by (simp add: encodes_def)
  show "x = y"
  proof (cases x)
    case (Prim q)
    with eq show ?thesis by (cases y) (simp_all add: dvalue_of_def)
  next
    case (Ref a)
    with eq have "idof st x = idof st y" by (cases y) (simp_all add: dvalue_of_def)
    with inj x y show ?thesis by (auto dest: inj_onD)
  qed
qed

lemma dclosed_image:
  assumes e: "encodes h v st" and p: "plain h v"
  shows "dclosed (to_record st) (dvalue_of st ` reach h v)"
  unfolding dclosed_def
proof (intro ballI conjI allI impI)
  fix val assume "val \<in> dvalue_of st ` reach h v"
  then obtain x where x: "x \<in> reach h v" and val: "val = dvalue_of st x" by blast
  show "set (dchildren (to_record st) val) \<subseteq> dvalue_of st ` reach h v"
    unfolding val dchildren_dvalue [OF e p x] using reach.child [OF x] by auto
  show "val \<noteq> DPrim JNull"
    using plain_not_null [OF p x] val by (cases x) (simp_all add: dvalue_of_def)
  fix k assume k: "val = DNode k"
  then obtain a where xa: "x = Ref a" and kx: "k = idof st x"
    using val by (cases x) (simp_all add: dvalue_of_def)
  from plain_ref [OF p] x xa
  consider xs where "h a = Some (Arr xs)" | kvs where "h a = Some (Obj kvs)"
    by blast
  then show "(\<exists>ks. map_of (to_record st) k = Some (NArr ks))
        \<or> (\<exists>kvs. map_of (to_record st) k = Some (NObj kvs))"
    using encodes_map_of [OF e x] xa kx by cases (simp_all add: encode_def)
qed

lemma traverse_each_map:
  assumes inj: "inj_on f R"
    and IH: "\<And>x seen seen' ok. x \<in> R \<Longrightarrow> set seen \<subseteq> R \<Longrightarrow>
              traverse n ch arr seen opn x = Some (seen', ok) \<Longrightarrow>
              traverse n ch' arr' (map f seen) (map f opn) (f x) = Some (map f seen', ok) \<and> set seen' \<subseteq> R"
  shows "set xs \<subseteq> R \<Longrightarrow> set seen \<subseteq> R \<Longrightarrow>
         traverse_each n ch arr seen opn xs = Some (seen', ok) \<Longrightarrow>
         traverse_each n ch' arr' (map f seen) (map f opn) (map f xs) = Some (map f seen', ok)
         \<and> set seen' \<subseteq> R"
proof (induction xs arbitrary: seen ok)
  case Nil
  then show ?case by auto
next
  case (Cons x xs)
  obtain seen1 ok1 where t1: "traverse n ch arr seen opn x = Some (seen1, ok1)"
    using Cons.prems(3) by (cases "traverse n ch arr seen opn x") auto
  obtain ok2 where t2: "traverse_each n ch arr seen1 opn xs = Some (seen', ok2)"
    and ok: "ok = (ok1 \<and> ok2)"
    using Cons.prems(3) t1 by (cases "traverse_each n ch arr seen1 opn xs") auto
  from Cons.prems(1) have xR: "x \<in> R" and xsR: "set xs \<subseteq> R" by auto
  from IH [OF xR Cons.prems(2) t1]
  have m1: "traverse n ch' arr' (map f seen) (map f opn) (f x) = Some (map f seen1, ok1)"
    and s1: "set seen1 \<subseteq> R" by auto
  from Cons.IH [OF xsR s1 t2]
  have m2: "traverse_each n ch' arr' (map f seen1) (map f opn) (map f xs) = Some (map f seen', ok2)"
    and s2: "set seen' \<subseteq> R" by auto
  from m1 m2 s2 ok show ?case by simp
qed

lemma traverse_map:
  assumes inj: "inj_on f R"
    and ch: "\<And>x. x \<in> R \<Longrightarrow> ch' (f x) = map f (ch x)"
    and chR: "\<And>x. x \<in> R \<Longrightarrow> set (ch x) \<subseteq> R"
    and ar: "\<And>x. x \<in> R \<Longrightarrow> arr' (f x) = arr x"
  shows "x \<in> R \<Longrightarrow> set seen \<subseteq> R \<Longrightarrow> set opn \<subseteq> R \<Longrightarrow>
         traverse n ch arr seen opn x = Some (seen', ok) \<Longrightarrow>
         traverse n ch' arr' (map f seen) (map f opn) (f x) = Some (map f seen', ok) \<and> set seen' \<subseteq> R"
proof (induction n arbitrary: x seen opn seen' ok)
  case 0
  then show ?case by simp
next
  case (Suc n)
  note xR = Suc.prems(1) and sR = Suc.prems(2) and oR = Suc.prems(3) and tr = Suc.prems(4)
  have mem: "f x \<in> set (map f ys) \<longleftrightarrow> x \<in> set ys" if "set ys \<subseteq> R" for ys
    using inj_on_image_mem_iff [OF inj xR that] by simp
  show ?case
  proof (cases "x \<in> set seen")
    case True
    with tr have "seen' = seen" "ok = (x \<notin> set opn)" by simp_all
    with True sR show ?thesis by (simp add: mem [OF sR] mem [OF oR] del: set_map)
  next
    case False
    let ?opn = "if arr x then x # opn else opn"
    from False tr have t: "traverse_each n ch arr (x # seen) ?opn (ch x) = Some (seen', ok)"
      by simp
    have o1: "set ?opn \<subseteq> R" using oR xR by simp
    have s1: "set (x # seen) \<subseteq> R" using sR xR by simp
    have "traverse_each n ch' arr' (map f (x # seen)) (map f ?opn) (map f (ch x)) = Some (map f seen', ok)
          \<and> set seen' \<subseteq> R"
    proof (rule traverse_each_map [OF inj _ chR [OF xR] s1 t])
      fix y sn sn' b
      assume "y \<in> R" "set sn \<subseteq> R" "traverse n ch arr sn ?opn y = Some (sn', b)"
      then show "traverse n ch' arr' (map f sn) (map f ?opn) (f y) = Some (map f sn', b) \<and> set sn' \<subseteq> R"
        using o1 by (intro Suc.IH)
    qed
    then show ?thesis
      using False by (cases "arr x") (simp_all add: mem [OF sR] ch [OF xR] ar [OF xR] del: set_map)
  qed
qed

lemma hydrate_state:
  assumes e: "encodes h v st" and p: "plain h v" and nr: "no_reentry fuel h v"
  shows "\<exists>st'. deserialize fuel (to_record st) \<lparr>hcache = [], hheap = Map.empty, hnext = 0\<rparr> (dvalue_of st v)
                  = Some (Inr (st', rebuilt st' (dvalue_of st v)))
           \<and> hstate_ok (to_record st) st'
           \<and> (\<forall>x \<in> reach h v. hcomplete (to_record st) st' (dvalue_of st x))"
proof -
  let ?d = "to_record st" and ?R = "dvalue_of st ` reach h v"
  let ?st0 = "\<lparr>hcache = [], hheap = Map.empty, hnext = 0\<rparr>"
  have cl: "dclosed ?d ?R" by (rule dclosed_image [OF e p])
  have ok0: "hstate_ok ?d ?st0" by (simp add: hstate_ok_def)
  have c0: "hcached ?st0 = set []" by (simp add: hcached_def)
  have u0: "unfinished ?st0 = set []" by (simp add: unfinished_def)
  have sub0: "hcached ?st0 \<subseteq> ?R" by (simp add: c0)
  have vR: "dvalue_of st v \<in> ?R" by (simp add: reach.root)
  from nr obtain seen where t: "traverse fuel (children h) (is_array h) [] [] v = Some (seen, True)"
    by (auto simp: no_reentry_def split: option.splits)
  have "traverse fuel (dchildren ?d) (is_darray ?d) (map (dvalue_of st) []) (map (dvalue_of st) [])
          (dvalue_of st v) = Some (map (dvalue_of st) seen, True) \<and> set seen \<subseteq> reach h v"
  proof (rule traverse_map [OF inj_on_dvalue [OF e] _ _ _ reach.root _ _ t])
    show "dchildren ?d (dvalue_of st x) = map (dvalue_of st) (children h x)" if "x \<in> reach h v" for x
      using that by (rule dchildren_dvalue [OF e p])
    show "set (children h x) \<subseteq> reach h v" if "x \<in> reach h v" for x
      using reach.child [OF that] by auto
    show "is_darray ?d (dvalue_of st x) = is_array h x" if "x \<in> reach h v" for x
      using that by (rule is_darray_dvalue [OF e p])
  qed simp_all
  then have t': "traverse fuel (dchildren ?d) (is_darray ?d) [] [] (dvalue_of st v)
                   = Some (map (dvalue_of st) seen, True)"
    by simp
  from deserialize_correct [OF cl ok0 sub0 c0 u0 vR t']
  obtain st' r where s: "deserialize fuel ?d ?st0 (dvalue_of st v) = Some (Inr (st', r))"
    and post: "deserialized ?d ?R ?st0 st'" and vc: "dvalue_of st v \<in> hcached st'"
    and r: "r = rebuilt st' (dvalue_of st v)"
    by blast
  from post have ok: "hstate_ok ?d st'"
    and comp: "\<And>val. val \<in> hcached st' \<Longrightarrow> hcomplete ?d st' val"
    unfolding deserialized_def by (auto simp: hcached_def)
  have "dvalue_of st x \<in> hcached st'" if "x \<in> reach h v" for x
    using that
  proof (induction rule: reach.induct)
    case root
    show ?case by (rule vc)
  next
    case (child x y)
    from comp [OF child.IH] have "set (dchildren ?d (dvalue_of st x)) \<subseteq> hcached st'"
      by (auto simp: hcomplete_def)
    with child.hyps(2) show ?case
      unfolding dchildren_dvalue [OF e p child.hyps(1)] by auto
  qed
  with comp have "\<forall>x \<in> reach h v. hcomplete ?d st' (dvalue_of st x)" by blast
  with s r ok show ?thesis by blast
qed

lemma map_map_prod:
  "map (\<lambda>(k, v). (k, g v)) (map (\<lambda>(k, y). (k, i y)) kvs) = map (\<lambda>(k, y). (k, g (i y))) kvs"
  by (induction kvs) auto

lemma rebuilt_graph:
  assumes e: "encodes h v st" and p: "plain h v"
    and ok: "hstate_ok (to_record st) st'"
    and comp: "\<forall>x \<in> reach h v. hcomplete (to_record st) st' (dvalue_of st x)"
  shows "same_graph (without_ignored h) (hheap st') (rebuilt st' \<circ> dvalue_of st) (reach h v)"
  unfolding same_graph_def
proof (intro conjI ballI)
  let ?d = "to_record st" and ?f = "rebuilt st' \<circ> dvalue_of st"
  have prim: "?f (Prim q) = Prim q" if "Prim q \<in> reach h v" for q
    using comp that by (auto simp: hcomplete_def dvalue_of_def)
  have ref: "\<exists>a'. ?f (Ref a) = Ref a' \<and> hheap st' a' = map_option (map_jsobj ?f) (without_ignored h a)"
    if x: "Ref a \<in> reach h v" for a
  proof -
    let ?k = "idof st (Ref a)"
    from comp x have hc: "hcomplete ?d st' (DNode ?k)" by (auto simp: dvalue_of_def)
    have ch: "\<And>y. y \<in> set (children h (Ref a)) \<Longrightarrow> lookup ?d (idof st y) = dvalue_of st y"
      using lookup_dvalue [OF e p] reach.child [OF x] by blast
    from plain_ref [OF p x]
    consider xs where "h a = Some (Arr xs)"
      | kvs where "h a = Some (Obj kvs)" "''__proto__'' \<notin> fst ` set kvs" by blast
    then show ?thesis
    proof cases
      case 1
      with ch have "\<And>y. y \<in> set xs \<Longrightarrow> lookup ?d (idof st y) = dvalue_of st y"
        by (simp add: children_def)
      then have m: "map (rebuilt st' \<circ> lookup ?d \<circ> idof st) xs = map ?f xs"
        by (intro map_cong) simp_all
      from encodes_map_of [OF e x] 1 have "map_of ?d ?k = Some (NArr (map (idof st) xs))"
        by (simp add: encode_def)
      with hc obtain a' where "rebuilt st' (DNode ?k) = Ref a'"
        and "hheap st' a' = Some (Arr (map (rebuilt st' \<circ> lookup ?d) (map (idof st) xs)))"
        by (auto simp: hcomplete_def)
      with m 1 show ?thesis by (auto simp: dvalue_of_def without_ignored_def)
    next
      case 2
      let ?own = "own_properties kvs"
      from ch 2 have "\<And>y. y \<in> snd ` set ?own \<Longrightarrow> lookup ?d (idof st y) = dvalue_of st y"
        by (simp add: children_def)
      then have m: "map (\<lambda>(k, y). (k, rebuilt st' (lookup ?d (idof st y)))) ?own
                     = map (\<lambda>(k, y). (k, ?f y)) ?own"
        by (intro map_cong) force+
      from encodes_map_of [OF e x] 2
      have "map_of ?d ?k = Some (NObj (map (\<lambda>(k, y). (k, idof st y)) ?own))"
        by (simp add: encode_def assigned_map_own)
      with hc obtain a' where r: "rebuilt st' (DNode ?k) = Ref a'"
        and "hheap st' a' = Some (Obj (assigned (map (\<lambda>(k, v). (k, rebuilt st' (lookup ?d v)))
                                        (map (\<lambda>(k, y). (k, idof st y)) ?own))))"
        by (auto simp: hcomplete_def)
      then have "hheap st' a' = Some (Obj (assigned (map (\<lambda>(k, y). (k, rebuilt st' (lookup ?d (idof st y)))) ?own)))"
        by (simp only: map_map_prod)
      then have "hheap st' a' = Some (Obj (map (\<lambda>(k, y). (k, ?f y)) ?own))"
        unfolding m by (simp only: assigned_map_own [OF 2(2)])
      with r 2 show ?thesis by (simp add: dvalue_of_def without_ignored_def)
    qed
  qed
  show "inj_on ?f (reach h v)"
  proof (rule inj_onI)
    fix x y assume x: "x \<in> reach h v" and y: "y \<in> reach h v" and eq: "?f x = ?f y"
    show "x = y"
    proof (cases x)
      case (Prim q)
      show ?thesis
      proof (cases y)
        case (Prim q')
        with \<open>x = Prim q\<close> prim x y eq show ?thesis by auto
      next
        case (Ref b)
        with \<open>x = Prim q\<close> prim [of q] ref [of b] x y eq show ?thesis by auto
      qed
    next
      case (Ref a)
      show ?thesis
      proof (cases y)
        case (Prim q')
        with \<open>x = Ref a\<close> prim [of q'] ref [of a] x y eq show ?thesis by auto
      next
        case yb: (Ref b)
        from ref [of a] x Ref obtain a' where a': "rebuilt st' (DNode (idof st x)) = Ref a'"
          by (auto simp: dvalue_of_def)
        from eq Ref yb have b': "rebuilt st' (DNode (idof st y)) = Ref a'"
          using a' by (simp add: dvalue_of_def)
        from a' have 1: "map_of (hcache st') (DNode (idof st x)) = Some (Ref a')"
          by (auto simp: rebuilt_def split: option.splits)
        from b' have 2: "map_of (hcache st') (DNode (idof st y)) = Some (Ref a')"
          by (auto simp: rebuilt_def split: option.splits)
        from ok 1 2 have "idof st x = idof st y" unfolding hstate_ok_def by blast
        moreover from e have "inj_on (idof st) (reach h v)"
          using inj_on_idof [of st] by (simp add: encodes_def)
        ultimately show ?thesis using x y by (auto dest: inj_onD)
      qed
    qed
  qed
  fix x assume x: "x \<in> reach h v"
  show "case x of Prim q \<Rightarrow> ?f x = Prim q
        | Ref a \<Rightarrow> \<exists>a'. ?f x = Ref a' \<and> hheap st' a' = map_option (map_jsobj ?f) (without_ignored h a)"
    using prim ref x by (cases x) simp_all
qed

text \<open>
  C1, as the code has it. Let everything reached from \<open>v\<close> be a primitive other than
  \<^verbatim>\<open>null\<close>, an array, or an object without an own property named \<^verbatim>\<open>__proto__\<close> (so no
  function is reached); let no array be met again while its elements are being walked;
  and let the fuel exceed the number of values reached. Then \<^verbatim>\<open>dehydrateValue\<close> returns a
  record \<open>d\<close>, \<^verbatim>\<open>hydrateValue\<close> returns a value \<open>r\<close> for \<open>d\<close>, and \<open>r\<close> in the new store is
  the same graph as \<open>v\<close> in the old one without the properties named \<^verbatim>\<open>checker\<close>: there
  is a one-to-one map \<open>f\<close> of the values reached from \<open>v\<close>, with \<open>f v = r\<close>, that keeps
  every primitive and sends every array and object to an array or object with the same
  property names (but \<^verbatim>\<open>checker\<close>) and the images of the same elements. Deep equality is
  the existence of \<open>f\<close>; that two properties holding one object in \<open>v\<close> hold one object
  in \<open>r\<close> is that \<open>f\<close> is a function, and that they hold different objects otherwise is
  that \<open>f\<close> is one-to-one.
\<close>

theorem roundtrip_same_graph:
  assumes fin: "finite (reach h v)" and p: "plain h v" and fuel: "card (reach h v) < fuel"
    and nr: "no_reentry fuel h v"
  shows "\<exists>d r h' f.
           dehydrateValue fuel h v = Some (Inr d)
           \<and> hydrateValue fuel (Some d) = Some (Inr (r, h'))
           \<and> r = f v
           \<and> same_graph (without_ignored h) h' f (reach h v)"
proof -
  from dehydrate_encodes [OF fin plain_closed [OF p] fuel] obtain st
    where d: "dehydrateValue fuel h v = Some (Inr (to_record st))" and e: "encodes h v st"
    by blast
  let ?d = "to_record st"
  from hydrate_state [OF e p nr] obtain st' where
    s: "deserialize fuel ?d \<lparr>hcache = [], hheap = Map.empty, hnext = 0\<rparr> (dvalue_of st v)
          = Some (Inr (st', rebuilt st' (dvalue_of st v)))"
    and ok: "hstate_ok ?d st'"
    and comp: "\<forall>x \<in> reach h v. hcomplete ?d st' (dvalue_of st x)"
    by blast
  from e have "length ?d = card (reach h v)"
    using length_to_record [of st] by (simp add: encodes_def)
  moreover have "card (reach h v) \<noteq> 0" using fin reach.root [of v h] by auto
  ultimately have ne: "?d \<noteq> []" by auto
  have "lookup ?d 0 = dvalue_of st v"
    using lookup_dvalue [OF e p reach.root] e by (simp add: encodes_def)
  with s ne have hy: "hydrateValue fuel (Some ?d)
                      = Some (Inr ((rebuilt st' \<circ> dvalue_of st) v, hheap st'))"
    by (simp add: hydrateValue_def)
  from d hy rebuilt_graph [OF e p ok comp] show ?thesis by blast
qed

lemma reach_shared:
  "reach (Map.empty(0 \<mapsto> Obj [(''arr'', Ref 1), (''checker'', Prim (JNum 1)), (''a'', Ref 2), (''b'', Ref 2)],
                    1 \<mapsto> Arr [Ref 0, Prim (JStr ''x'')],
                    2 \<mapsto> Obj [(''n'', Prim (JNum 5))])) (Ref 0)
     = {Ref 0, Ref 1, Ref 2, Prim (JStr ''x''), Prim (JNum 5)}"
proof
  let ?h = "Map.empty(0 \<mapsto> Obj [(''arr'', Ref 1), (''checker'', Prim (JNum 1)), (''a'', Ref 2), (''b'', Ref 2)],
                    1 \<mapsto> Arr [Ref 0, Prim (JStr ''x'')],
                    2 \<mapsto> Obj [(''n'', Prim (JNum 5))])"
  let ?S = "{Ref 0, Ref 1, Ref 2, Prim (JStr ''x''), Prim (JNum 5)}"
  show "reach ?h (Ref 0) \<subseteq> ?S"
    by (rule reach_subset) (auto simp: children_def own_properties_def ignoredKeys_def)
  have 1: "Ref 1 \<in> reach ?h (Ref 0)"
    by (rule reach.child [OF reach.root]) (simp add: children_def own_properties_def ignoredKeys_def)
  have 2: "Ref 2 \<in> reach ?h (Ref 0)"
    by (rule reach.child [OF reach.root]) (simp add: children_def own_properties_def ignoredKeys_def)
  have 3: "Prim (JStr ''x'') \<in> reach ?h (Ref 0)"
    by (rule reach.child [OF 1]) (simp add: children_def)
  have 4: "Prim (JNum 5) \<in> reach ?h (Ref 0)"
    by (rule reach.child [OF 2]) (simp add: children_def own_properties_def ignoredKeys_def)
  from 1 2 3 4 show "?S \<subseteq> reach ?h (Ref 0)" by (simp add: reach.root)
qed

lemma plain_shared:
  "plain (Map.empty(0 \<mapsto> Obj [(''arr'', Ref 1), (''checker'', Prim (JNum 1)), (''a'', Ref 2), (''b'', Ref 2)],
                    1 \<mapsto> Arr [Ref 0, Prim (JStr ''x'')],
                    2 \<mapsto> Obj [(''n'', Prim (JNum 5))])) (Ref 0)"
  unfolding plain_def reach_shared by simp

lemma no_reentry_shared:
  "no_reentry 6 (Map.empty(0 \<mapsto> Obj [(''arr'', Ref 1), (''checker'', Prim (JNum 1)), (''a'', Ref 2), (''b'', Ref 2)],
                    1 \<mapsto> Arr [Ref 0, Prim (JStr ''x'')],
                    2 \<mapsto> Obj [(''n'', Prim (JNum 5))])) (Ref 0)"
  by (simp add: no_reentry_def eval_nat_numeral children_def is_array_def own_properties_def
      ignoredKeys_def)

theorem roundtrip_same_graph_witness:
  "\<exists>d r h' f.
     dehydrateValue 6 (Map.empty(0 \<mapsto> Obj [(''arr'', Ref 1), (''checker'', Prim (JNum 1)), (''a'', Ref 2), (''b'', Ref 2)],
                    1 \<mapsto> Arr [Ref 0, Prim (JStr ''x'')],
                    2 \<mapsto> Obj [(''n'', Prim (JNum 5))])) (Ref 0) = Some (Inr d)
     \<and> hydrateValue 6 (Some d) = Some (Inr (r, h'))
     \<and> r = f (Ref 0)
     \<and> same_graph
          (without_ignored (Map.empty(0 \<mapsto> Obj [(''arr'', Ref 1), (''checker'', Prim (JNum 1)), (''a'', Ref 2), (''b'', Ref 2)],
                    1 \<mapsto> Arr [Ref 0, Prim (JStr ''x'')],
                    2 \<mapsto> Obj [(''n'', Prim (JNum 5))]))) h' f
          (reach (Map.empty(0 \<mapsto> Obj [(''arr'', Ref 1), (''checker'', Prim (JNum 1)), (''a'', Ref 2), (''b'', Ref 2)],
                    1 \<mapsto> Arr [Ref 0, Prim (JStr ''x'')],
                    2 \<mapsto> Obj [(''n'', Prim (JNum 5))])) (Ref 0))"
proof -
  let ?h = "Map.empty(0 \<mapsto> Obj [(''arr'', Ref 1), (''checker'', Prim (JNum 1)), (''a'', Ref 2), (''b'', Ref 2)],
                    1 \<mapsto> Arr [Ref 0, Prim (JStr ''x'')],
                    2 \<mapsto> Obj [(''n'', Prim (JNum 5))])"
  have fin: "finite (reach ?h (Ref 0))"
    unfolding reach_shared by simp
  have less: "card (reach ?h (Ref 0)) < 6"
    unfolding reach_shared by simp
  show ?thesis by (rule roundtrip_same_graph [OF fin plain_shared less no_reentry_shared])
qed

text \<open>
  The claim as stated asks for a value deep-equal to \<open>v\<close>. The object \<^verbatim>\<open>{ checker: 1 }\<close>
  holds no function; it comes back as \<^verbatim>\<open>{}\<close>, which is not the same graph under any map
  of its values.
\<close>

theorem ignored_key_roundtrip_counterexample:
  "dehydrateValue 2 (Map.empty(0 \<mapsto> Obj [(''checker'', Prim (JNum 1))])) (Ref 0)
     = Some (Inr [(0, NObj [])])
   \<and> hydrateValue 2 (Some [(0, NObj [])]) = Some (Inr (Ref 0, Map.empty(0 \<mapsto> Obj [])))
   \<and> \<not> (\<exists>f. same_graph (Map.empty(0 \<mapsto> Obj [(''checker'', Prim (JNum 1))])) (Map.empty(0 \<mapsto> Obj [])) f
                (reach (Map.empty(0 \<mapsto> Obj [(''checker'', Prim (JNum 1))])) (Ref 0)))"
proof (intro conjI)
  show "dehydrateValue 2 (Map.empty(0 \<mapsto> Obj [(''checker'', Prim (JNum 1))])) (Ref 0)
          = Some (Inr [(0, NObj [])])"
    by (simp add: dehydrateValue_def numeral_2_eq_2 set_entry_value_def add_entry_def
        own_properties_def ignoredKeys_def assigned_def)
  show "hydrateValue 2 (Some [(0, NObj [])]) = Some (Inr (Ref 0, Map.empty(0 \<mapsto> Obj [])))"
    by (simp add: hydrateValue_def numeral_2_eq_2 set_cache_value_def add_hentry_def alloc_def
        lookup_def assigned_def)
  show "\<not> (\<exists>f. same_graph (Map.empty(0 \<mapsto> Obj [(''checker'', Prim (JNum 1))])) (Map.empty(0 \<mapsto> Obj [])) f
                (reach (Map.empty(0 \<mapsto> Obj [(''checker'', Prim (JNum 1))])) (Ref 0)))"
  proof
    assume "\<exists>f. same_graph (Map.empty(0 \<mapsto> Obj [(''checker'', Prim (JNum 1))])) (Map.empty(0 \<mapsto> Obj [])) f
                (reach (Map.empty(0 \<mapsto> Obj [(''checker'', Prim (JNum 1))])) (Ref 0))"
    then obtain f where g: "same_graph (Map.empty(0 \<mapsto> Obj [(''checker'', Prim (JNum 1))])) (Map.empty(0 \<mapsto> Obj [])) f
                (reach (Map.empty(0 \<mapsto> Obj [(''checker'', Prim (JNum 1))])) (Ref 0))" ..
    have "Ref 0 \<in> reach (Map.empty(0 \<mapsto> Obj [(''checker'', Prim (JNum 1))])) (Ref 0)"
      by (rule reach.root)
    with g show False
      unfolding same_graph_def by (auto dest!: bspec split: if_splits)
  qed
qed

text \<open>
  Inputs without a function that do not come back. \<^verbatim>\<open>null\<close> has
  \<^verbatim>\<open>typeof null === 'object'\<close>, so \<^verbatim>\<open>serialize\<close> calls \<^verbatim>\<open>Object.entries(null)\<close>, which throws.
  An own property named \<^verbatim>\<open>__proto__\<close> is serialized, but \<^verbatim>\<open>Object.assign\<close> does not put it
  into the node. An array that is met again while its elements are being rebuilt is
  \<^verbatim>\<open>undefined\<close> there, because the cache entry of \<^verbatim>\<open>deserialize\<close> is assigned only after
  \<^verbatim>\<open>val.map\<close> has returned: the array that holds itself comes back holding
  \<^verbatim>\<open>undefined\<close>, and so does the cycle of \<^verbatim>\<open>o = { arr: [o] }\<close> when it is entered at the
  array instead of at \<open>o\<close>.
\<close>

lemma dehydrateValue_null:
  "dehydrateValue (Suc m) h (Prim JNull) = Some (Inl TypeError)"
  by (simp add: dehydrateValue_def add_entry_def)

lemma dehydrateValue_null_property:
  assumes "h a = Some (Obj [(k, Prim JNull)])" and "k \<notin> set ignoredKeys"
  shows "dehydrateValue (Suc (Suc m)) h (Ref a) = Some (Inl TypeError)"
  using assms by (simp add: dehydrateValue_def add_entry_def own_properties_def)

lemma dehydrateValue_proto_property:
  assumes "h a = Some (Obj [(''__proto__'', Prim (JNum 5))])"
  shows "dehydrateValue (Suc (Suc m)) h (Ref a) = Some (Inr [(0, NObj []), (1, NPrim (JNum 5))])"
  using assms
  by (simp add: dehydrateValue_def add_entry_def set_entry_value_def own_properties_def
      ignoredKeys_def assigned_def)

lemma cyclic_array_roundtrip:
  assumes "h a = Some (Arr [Ref a])"
  shows "dehydrateValue (Suc (Suc m)) h (Ref a) = Some (Inr [(0, NArr [0])])
         \<and> hydrateValue (Suc (Suc m)) (Some [(0, NArr [0])])
             = Some (Inr (Ref 0, Map.empty(0 \<mapsto> Arr [Prim JUndefined])))
         \<and> \<not> no_reentry (Suc (Suc m)) h (Ref a)"
  using assms
  by (simp add: dehydrateValue_def hydrateValue_def set_entry_value_def add_entry_def
      set_cache_value_def add_hentry_def alloc_def lookup_def no_reentry_def children_def
      is_array_def)

lemma array_entered_first_roundtrip:
  assumes "h a = Some (Arr [Ref b])" and "h b = Some (Obj [(''arr'', Ref a)])" and "a \<noteq> b"
  shows "dehydrateValue (Suc (Suc (Suc m))) h (Ref a) = Some (Inr [(0, NArr [1]), (1, NObj [(''arr'', 0)])])
         \<and> hydrateValue (Suc (Suc (Suc m))) (Some [(0, NArr [1]), (1, NObj [(''arr'', 0)])])
             = Some (Inr (Ref 1, Map.empty(0 \<mapsto> Obj [(''arr'', Prim JUndefined)], 1 \<mapsto> Arr [Ref 0])))
         \<and> \<not> no_reentry (Suc (Suc (Suc m))) h (Ref a)
         \<and> no_reentry (Suc (Suc (Suc m))) h (Ref b)"
  using assms
  by (simp add: dehydrateValue_def hydrateValue_def set_entry_value_def add_entry_def
      set_cache_value_def add_hentry_def alloc_def lookup_def no_reentry_def children_def
      is_array_def own_properties_def ignoredKeys_def assigned_def)

section \<open>Properties of the message channel\<close>

lemma request_simps:
  "request key body ch = (ch_n ch,
     ch\<lparr>ch_n := Suc (ch_n ch),
        sent := sent ch @ [\<lparr>rm_source = ''MessageChannel'', rm_n = Some (ch_n ch), rm_message = REQUEST key body\<rparr>],
        promises := (promises ch)(ch_n ch \<mapsto> Pending),
        timers := (timers ch)(ch_n ch \<mapsto> ch_n ch),
        responseHandlers := (responseHandlers ch)(ch_n ch \<mapsto> \<lparr>rh_promise = ch_n ch, rh_timeout = ch_n ch\<rparr>)\<rparr>)"
  by (simp add: request_def sendNumbered_def config_send_def)

lemma request_answered:
  "\<exists>ch'. messageHandler ch \<lparr>rm_source = ''MessageChannel'', rm_n = Some k, rm_message = REQUEST key body\<rparr> = Inr ch'
   \<and> sent ch' = sent ch @ [response_frame k
        (case handlerRegistry ch key of
           None \<Rightarrow> Stack (Error (''no handler for '' @ key))
         | Some requestHandler \<Rightarrow>
             (case requestHandler body of Inr response \<Rightarrow> response | Inl e \<Rightarrow> Stack e))
        (case handlerRegistry ch key of
           None \<Rightarrow> True
         | Some requestHandler \<Rightarrow>
             (case requestHandler body of Inr response \<Rightarrow> False | Inl e \<Rightarrow> True))]"
  by (simp add: messageHandler_def respond_def send_def config_send_def emitter_emit_def response_frame_def
      split: option.splits sum.splits)

text \<open>
  C7. A request frame with sequence number \<open>k\<close> (the frames \<^verbatim>\<open>request\<close> sends; a frame of
  \<^verbatim>\<open>notify\<close> has none and is never answered) makes the channel hand one response frame for
  \<open>k\<close> to \<^verbatim>\<open>config.send\<close>. When the registry has no handler for the key, the frame has
  \<^verbatim>\<open>isError\<close> set and its body is the stack of the error \<^verbatim>\<open>no handler for <key>\<close>. When it
  has one, the frame carries the handler's result with \<^verbatim>\<open>isError\<close> unset, or the stack of
  the error the handler threw with \<^verbatim>\<open>isError\<close> set.
\<close>

theorem request_frame_gets_response:
  "\<exists>ch'. messageHandler ch \<lparr>rm_source = ''MessageChannel'', rm_n = Some k, rm_message = REQUEST key body\<rparr> = Inr ch'
   \<and> sent ch' = sent ch @ [\<lparr>rm_source = ''MessageChannel'', rm_n = None, rm_message =
        (case handlerRegistry ch key of
           None \<Rightarrow> RESPONSE k (Stack (Error (''no handler for '' @ key))) True
         | Some requestHandler \<Rightarrow>
             (case requestHandler body of
                Inr response \<Rightarrow> RESPONSE k response False
              | Inl e \<Rightarrow> RESPONSE k (Stack e) True))\<rparr>]"
  by (simp add: messageHandler_def respond_def send_def config_send_def emitter_emit_def
      split: option.splits sum.splits)

lemma notify_frame_not_answered:
  "\<exists>ch'. messageHandler ch \<lparr>rm_source = ''MessageChannel'', rm_n = None, rm_message = REQUEST key body\<rparr> = Inr ch'
   \<and> sent ch' = sent ch"
  by (simp add: messageHandler_def emitter_emit_def split: option.splits sum.splits)

lemma response_settles:
  assumes "responseHandlers ch k = Some \<lparr>rh_promise = k, rh_timeout = k\<rparr>" and "promises ch k = Some Pending"
  shows "\<exists>ch'. messageHandler ch (response_frame k b isError) = Inr ch'
     \<and> promises ch' k = Some (if isError then Rejected (ResponseError b) else Fulfilled b)
     \<and> responseHandlers ch' k = None \<and> timers ch' k = None"
  using assms
  by (simp add: messageHandler_def emitter_emit_def settle_def clearTimeout_def response_frame_def)

lemma timeout_first:
  assumes "timers ch k = Some k" and "promises ch k = Some Pending"
  shows "\<exists>ch'. timeout_fires k ch = Some ch'
     \<and> promises ch' k = Some (Rejected (Plain (Error ''timed out after 3600000 ms'')))
     \<and> responseHandlers ch' = responseHandlers ch \<and> timers ch' k = None"
  using assms by (simp add: timeout_fires_def settle_def clearTimeout_def)

lemma late_response:
  assumes "responseHandlers ch k = Some \<lparr>rh_promise = k, rh_timeout = k\<rparr>"
    and "promises ch k = Some r" and "r \<noteq> Pending"
  shows "\<exists>ch'. messageHandler ch (response_frame k b isError) = Inr ch'
     \<and> promises ch' k = Some r \<and> responseHandlers ch' k = None"
  using assms
  by (cases r)
     (simp_all add: messageHandler_def emitter_emit_def settle_def clearTimeout_def Let_def response_frame_def)

text \<open>
  C3, as the code has it. \<^verbatim>\<open>request\<close> leaves a pending promise, an entry of
  \<^verbatim>\<open>responseHandlers\<close> and an armed timer. If the matching response comes first, it settles
  the promise, deletes the entry and clears the timer, so the timeout cannot fire any
  more. If the timeout fires first, it rejects the promise and does nothing else: the
  entry stays in \<^verbatim>\<open>responseHandlers\<close>, the timer cannot fire twice, and a matching response
  that comes later finds the entry, deletes it and leaves the rejected promise as it is.
\<close>

theorem pending_request_lifecycle:
  assumes "request key body ch = (k, ch1)"
  shows "promises ch1 k = Some Pending \<and> responseHandlers ch1 k \<noteq> None \<and> timers ch1 k \<noteq> None
    \<and> (\<exists>ch2. messageHandler ch1 (response_frame k b isError) = Inr ch2
          \<and> promises ch2 k = Some (if isError then Rejected (ResponseError b) else Fulfilled b)
          \<and> responseHandlers ch2 k = None
          \<and> timeout_fires k ch2 = None)
    \<and> (\<exists>ch3. timeout_fires k ch1 = Some ch3
          \<and> promises ch3 k = Some (Rejected (Plain (Error ''timed out after 3600000 ms'')))
          \<and> responseHandlers ch3 k = responseHandlers ch1 k
          \<and> timeout_fires k ch3 = None
          \<and> (\<exists>ch4. messageHandler ch3 (response_frame k b isError) = Inr ch4
                \<and> promises ch4 k = promises ch3 k
                \<and> responseHandlers ch4 k = None))"
proof -
  from assms have k: "k = ch_n ch" and ch1: "ch1 = snd (request key body ch)"
    by (auto simp: request_simps)
  have rh: "responseHandlers ch1 k = Some \<lparr>rh_promise = k, rh_timeout = k\<rparr>"
    and pr: "promises ch1 k = Some Pending" and tm: "timers ch1 k = Some k"
    by (simp_all add: request_simps k ch1)
  obtain ch2 where c2: "messageHandler ch1 (response_frame k b isError) = Inr ch2"
     "promises ch2 k = Some (if isError then Rejected (ResponseError b) else Fulfilled b)"
     "responseHandlers ch2 k = None" "timers ch2 k = None"
    using response_settles [OF rh pr, of b isError] by blast
  have t2: "timeout_fires k ch2 = None"
    by (simp add: timeout_fires_def c2(4))
  obtain ch3 where c3: "timeout_fires k ch1 = Some ch3"
     "promises ch3 k = Some (Rejected (Plain (Error ''timed out after 3600000 ms'')))"
     "responseHandlers ch3 = responseHandlers ch1" "timers ch3 k = None"
    using timeout_first [OF tm pr] by blast
  have t3: "timeout_fires k ch3 = None"
    by (simp add: timeout_fires_def c3(4))
  have rh3: "responseHandlers ch3 k = Some \<lparr>rh_promise = k, rh_timeout = k\<rparr>"
    by (simp add: c3(3) rh)
  obtain ch4 where c4: "messageHandler ch3 (response_frame k b isError) = Inr ch4"
     "promises ch4 k = promises ch3 k" "responseHandlers ch4 k = None"
    using late_response [OF rh3 c3(2), of b isError] by (auto simp: c3(2))
  show ?thesis
    using rh pr tm c2(1,2,3) t2 c3(1,2) t3 c4 by (simp add: c3(3))
qed

theorem pending_request_lifecycle_witness:
  "promises (snd (request ''double'' (Payload (21::nat)) (new_channel Map.empty))) 0 = Some Pending
    \<and> (\<exists>ch2. messageHandler (snd (request ''double'' (Payload (21::nat)) (new_channel Map.empty)))
                (response_frame 0 (Payload (42::nat)) False) = Inr ch2
          \<and> promises ch2 0 = Some (Fulfilled (Payload (42::nat)))
          \<and> responseHandlers ch2 0 = None
          \<and> timeout_fires 0 ch2 = None)
    \<and> (\<exists>ch3. timeout_fires 0 (snd (request ''double'' (Payload (21::nat)) (new_channel Map.empty))) = Some ch3
          \<and> promises ch3 0 = Some (Rejected (Plain (Error ''timed out after 3600000 ms'')))
          \<and> timeout_fires 0 ch3 = None
          \<and> (\<exists>ch4. messageHandler ch3 (response_frame 0 (Payload (42::nat)) False) = Inr ch4
                \<and> promises ch4 0 = promises ch3 0
                \<and> responseHandlers ch4 0 = None))"
proof -
  have r: "request ''double'' (Payload (21::nat)) (new_channel Map.empty)
         = (0, snd (request ''double'' (Payload (21::nat)) (new_channel Map.empty)))"
    by (simp add: request_simps new_channel_def)
  show ?thesis
    using pending_request_lifecycle [OF r, of "Payload 42" False] by auto
qed

text \<open>
  The claim as stated says that the correlation entry no longer exists once the timeout
  has fired. On a new channel, after \<^verbatim>\<open>request('double', 21)\<close> and the timeout, the entry
  for sequence number 0 is still in \<^verbatim>\<open>responseHandlers\<close>.
\<close>

theorem timeout_keeps_entry_counterexample:
  "(case request ''double'' (Payload (21::nat)) (new_channel Map.empty) of
      (k, ch1) \<Rightarrow> (case timeout_fires k ch1 of
                     Some ch3 \<Rightarrow> responseHandlers ch3 k = Some \<lparr>rh_promise = k, rh_timeout = k\<rparr>
                   | None \<Rightarrow> False))"
  by (simp add: request_simps new_channel_def timeout_fires_def settle_def clearTimeout_def)

section \<open>Properties of the broadcast\<close>

lemma peer_reply:
  assumes "handlerRegistry peer key = Some f"
  shows "\<exists>peer1. messageHandler peer \<lparr>rm_source = ''MessageChannel'', rm_n = Some k, rm_message = REQUEST key body\<rparr> = Inr peer1
     \<and> sent peer1 = sent peer @ [response_frame k
             (case f body of Inr response \<Rightarrow> response | Inl e \<Rightarrow> Stack e)
             (case f body of Inr response \<Rightarrow> False | Inl e \<Rightarrow> True)]"
  using request_answered [of peer k key body] assms by simp

lemma exchange_outcome:
  assumes f: "handlerRegistry (peer_end c) key = Some f"
  shows "exchange c key body =
           (case f body of Inr response \<Rightarrow> Fulfilled response
                         | Inl e \<Rightarrow> Rejected (ResponseError (Stack e)))"
proof -
  define k where "k = ch_n (local_end c)"
  define local1 where "local1 = snd (request key body (local_end c))"
  define frame :: "'a raw_message" where
    "frame = \<lparr>rm_source = ''MessageChannel'', rm_n = Some k, rm_message = REQUEST key body\<rparr>"
  define reply :: "'a raw_message" where
    "reply = response_frame k
             (case f body of Inr response \<Rightarrow> response | Inl e \<Rightarrow> Stack e)
             (case f body of Inr response \<Rightarrow> False | Inl e \<Rightarrow> True)"
  have req: "request key body (local_end c) = (k, local1)"
    by (simp add: request_simps k_def local1_def)
  have sent1: "drop (length (sent (local_end c))) (sent local1) = [frame]"
    by (simp add: request_simps k_def local1_def frame_def)
  have rh: "responseHandlers local1 k = Some \<lparr>rh_promise = k, rh_timeout = k\<rparr>"
    and pr: "promises local1 k = Some Pending"
    by (simp_all add: request_simps k_def local1_def)
  obtain peer1 where p1: "messageHandler (peer_end c) frame = Inr peer1"
    and s1: "sent peer1 = sent (peer_end c) @ [reply]"
    using peer_reply [OF f, of k body] unfolding frame_def reply_def by blast
  have sent2: "drop (length (sent (peer_end c))) (sent peer1) = [reply]"
    by (simp add: s1)
  show ?thesis
  proof (cases "f body")
    case (Inl e)
    then have r: "reply = response_frame k (Stack e) True"
      by (simp add: reply_def)
    obtain local2 where "messageHandler local1 reply = Inr local2"
      and "promises local2 k = Some (Rejected (ResponseError (Stack e)))"
      using response_settles [OF rh pr, of "Stack e" True] unfolding r by auto
    then show ?thesis
      by (simp add: exchange_def req sent1 sent2 p1 Inl)
  next
    case (Inr x)
    then have r: "reply = response_frame k x False"
      by (simp add: reply_def)
    obtain local2 where "messageHandler local1 reply = Inr local2"
      and "promises local2 k = Some (Fulfilled x)"
      using response_settles [OF rh pr, of x False] unfolding r by auto
    then show ?thesis
      by (simp add: exchange_def req sent1 sent2 p1 Inr)
  qed
qed

lemma earliest_mem: "earliest r xs \<in> set (r # xs)"
  by (induction xs arbitrary: r) auto

lemma rejections_mem: "(t, e) \<in> set (rejections ps) \<longleftrightarrow> (t, Rejected e) \<in> set ps"
  by (induction ps rule: rejections.induct) auto

lemma promise_all_fulfilled:
  assumes a: "map snd ps = map Fulfilled xs"
  shows "promise_all ps = Fulfilled xs"
proof -
  have "rejections ps = [] \<and> fulfilments ps = Some xs"
    using a
  proof (induction ps arbitrary: xs)
    case Nil then show ?case by simp
  next
    case (Cons p ps)
    then obtain y ys where "xs = y # ys" by (cases xs) auto
    with Cons show ?case by (cases p) auto
  qed
  then show ?thesis by (simp add: promise_all_def)
qed

lemma promise_all_rejected:
  assumes "(t, Rejected e) \<in> set ps"
  shows "\<exists>t' e'. promise_all ps = Rejected e' \<and> (t', Rejected e') \<in> set ps"
proof -
  from assms have "(t, e) \<in> set (rejections ps)" by (simp add: rejections_mem)
  then obtain r rs where rr: "rejections ps = r # rs" by (cases "rejections ps") auto
  have "earliest r rs \<in> set (rejections ps)" unfolding rr by (rule earliest_mem)
  then have "(fst (earliest r rs), Rejected (snd (earliest r rs))) \<in> set ps"
    by (simp add: rejections_mem [symmetric])
  moreover have "promise_all ps = Rejected (snd (earliest r rs))"
    by (simp add: promise_all_def rr)
  ultimately show ?thesis by blast
qed

text \<open>
  C2, as the code has it. \<^verbatim>\<open>handlers.invoke\<close> is \<^verbatim>\<open>Promise.all\<close> over the requests to the
  connections. When every request is fulfilled it resolves with the results in the
  iteration order of the connections. When a client's handler throws, that connection's
  request is rejected with the \<^verbatim>\<open>ResponseError\<close> of the error response, and the whole
  \<^verbatim>\<open>invoke\<close> is rejected with the reason of one of the rejected requests: no array is
  produced.
\<close>

theorem broadcast_invoke_all_or_reject:
  "(map (\<lambda>child. exchange child key body) connections = map Fulfilled xs
      \<longrightarrow> broadcast_invoke connections key body = Fulfilled xs)
   \<and> (c \<in> set connections \<and> handlerRegistry (peer_end c) key = Some f \<and> f body = Inl e
      \<longrightarrow> exchange c key body = Rejected (ResponseError (Stack e))
          \<and> (\<exists>c' \<in> set connections. \<exists>e'. exchange c' key body = Rejected e'
                \<and> broadcast_invoke connections key body = Rejected e'))"
proof (intro conjI impI)
  assume "map (\<lambda>child. exchange child key body) connections = map Fulfilled xs"
  then show "broadcast_invoke connections key body = Fulfilled xs"
    unfolding broadcast_invoke_def
    by (intro promise_all_fulfilled) (simp add: comp_def)
next
  assume a: "c \<in> set connections \<and> handlerRegistry (peer_end c) key = Some f \<and> f body = Inl e"
  then show ex: "exchange c key body = Rejected (ResponseError (Stack e))"
    by (simp add: exchange_outcome)
  from a have "(latency c, Rejected (ResponseError (Stack e)))
      \<in> set (map (\<lambda>child. (latency child, exchange child key body)) connections)"
    using ex by force
  from promise_all_rejected [OF this]
  show "\<exists>c' \<in> set connections. \<exists>e'. exchange c' key body = Rejected e'
                \<and> broadcast_invoke connections key body = Rejected e'"
    unfolding broadcast_invoke_def by auto
qed


lemma exchange_client_with:
  "exchange (client_with f t) ''k'' body =
     (case f body of Inr response \<Rightarrow> Fulfilled response
                   | Inl e \<Rightarrow> Rejected (ResponseError (Stack e)))"
  by (rule exchange_outcome) (simp add: client_with_def new_channel_def)

theorem broadcast_invoke_all_or_reject_witness:
  "map (\<lambda>child. exchange child ''k'' (Payload 7)) [client_with Inr 1, client_with Inr 2]
     = map Fulfilled [Payload 7, Payload 7]
   \<and> broadcast_invoke [client_with Inr 1, client_with Inr 2] ''k'' (Payload 7)
     = Fulfilled [Payload 7, Payload 7]
   \<and> handlerRegistry (peer_end (client_with (\<lambda>b. Inl (Error ''boom'')) 2)) ''k''
     = Some (\<lambda>b. Inl (Error ''boom''))
   \<and> exchange (client_with (\<lambda>b. Inl (Error ''boom'')) 2) ''k'' (Payload 7)
     = Rejected (ResponseError (Stack (Error ''boom'')))
   \<and> (\<exists>e'. broadcast_invoke
              [client_with Inr 1, client_with (\<lambda>b. Inl (Error ''boom'')) 2, client_with Inr 3]
              ''k'' (Payload 7) = Rejected e')"
proof -
  have all: "map (\<lambda>child. exchange child ''k'' (Payload 7)) [client_with Inr 1, client_with Inr 2]
     = map Fulfilled [Payload 7, Payload 7]"
    by (simp add: exchange_client_with)
  have reg: "handlerRegistry (peer_end (client_with (\<lambda>b. Inl (Error ''boom'')) 2)) ''k''
     = Some (\<lambda>b. Inl (Error ''boom''))"
    by (simp add: client_with_def new_channel_def)
  from all reg show ?thesis
    using broadcast_invoke_all_or_reject
            [of "''k''" "Payload 7" "[client_with Inr 1, client_with Inr 2]" "[Payload 7, Payload 7]"
                "client_with (\<lambda>b. Inl (Error ''boom'')) 2" "\<lambda>b. Inl (Error ''boom'')" "Error ''boom''"]
          broadcast_invoke_all_or_reject
            [of "''k''" "Payload 7"
                "[client_with Inr 1, client_with (\<lambda>b. Inl (Error ''boom'')) 2, client_with Inr 3]"
                "[]" "client_with (\<lambda>b. Inl (Error ''boom'')) 2" "\<lambda>b. Inl (Error ''boom'')"
                "Error ''boom''"]
    by auto
qed

text \<open>
  The claim as stated fails with three connected clients of which the second throws
  inside its handler: \<^verbatim>\<open>invoke\<close> does not resolve with an array of length 3, it rejects with
  the \<^verbatim>\<open>ResponseError\<close> of that client.
\<close>

theorem broadcast_invoke_rejects_counterexample:
  "broadcast_invoke
     [client_with Inr 1, client_with (\<lambda>b. Inl (Error ''boom'')) 2, client_with Inr 3]
     ''k'' (Payload 7)
   = Rejected (ResponseError (Stack (Error ''boom'')))"
  by (simp add: broadcast_invoke_def promise_all_def exchange_client_with)


section \<open>Properties of the global context store\<close>

lemma of_char_digit_char: "d < 10 \<Longrightarrow> (of_char (digit_char d) :: nat) = 48 + d"
  by (simp add: digit_char_def)

lemma is_digit_digit_char: "d < 10 \<Longrightarrow> is_digit (digit_char d)"
  by (simp add: is_digit_def of_char_digit_char)

lemma show_nat_digits: "c \<in> set (show_nat n) \<Longrightarrow> is_digit c"
proof (induction n arbitrary: c rule: show_nat.induct)
  case (1 n)
  show ?case
  proof (cases "n < 10")
    case True
    with "1.prems" show ?thesis by (subst (asm) show_nat.simps) (simp add: is_digit_digit_char)
  next
    case False
    with "1.prems" have "c \<in> set (show_nat (n div 10)) \<or> c = digit_char (n mod 10)"
      by (subst (asm) show_nat.simps) auto
    with False "1.IH" show ?thesis by (auto simp: is_digit_digit_char)
  qed
qed

lemma show_nat_nonempty: "show_nat n \<noteq> []"
  by (subst show_nat.simps) simp

lemma foldl_digits_show_nat:
  "foldl (\<lambda>a c. 10 * a + ((of_char c :: nat) - 48)) 0 (show_nat n) = n"
proof (induction n rule: show_nat.induct)
  case (1 n)
  show ?case
  proof (cases "n < 10")
    case True
    then show ?thesis by (subst show_nat.simps) (simp add: of_char_digit_char)
  next
    case False
    with "1.IH" show ?thesis
      by (subst show_nat.simps) (simp add: of_char_digit_char)
  qed
qed

lemma takeWhile_show_nat: "\<not> is_digit x \<Longrightarrow> takeWhile is_digit (show_nat n @ x # rest) = show_nat n"
  by (simp add: takeWhile_append2 show_nat_digits)

lemma dropWhile_show_nat: "\<not> is_digit x \<Longrightarrow> dropWhile is_digit (show_nat n @ x # rest) = x # rest"
  by (simp add: dropWhile_append2 show_nat_digits)

lemma takeWhile_show_nat_only: "takeWhile is_digit (show_nat n) = show_nat n"
  by (simp add: show_nat_digits)

lemma parseInt_show_nat: "parseInt (show_nat n) = n"
  by (simp add: parseInt_def takeWhile_show_nat_only foldl_digits_show_nat)

lemma not_digit_dash: "\<not> is_digit CHR ''-''" and not_digit_dot: "\<not> is_digit CHR ''.''"
  by (simp_all add: is_digit_def)

lemma jsonFilename_exec_entry: "jsonFilename_exec (entry_filename pid i) = Some (show_nat pid)"
  by (simp add: jsonFilename_exec_def entry_filename_def takeWhile_show_nat dropWhile_show_nat
      not_digit_dash not_digit_dot show_nat_nonempty)



lemma expose_empty:
  assumes "g_dir w = []"
  shows "exposeGlobalContext pid i c w =
     (entry_filename pid (Suc i), Suc i, w\<lparr>g_dir := [(entry_filename pid (Suc i), \<lparr>f_mtime = g_now w, f_content = Some c\<rparr>)]\<rparr>)"
  using assms by (simp add: exposeGlobalContext_def Let_def)

lemma minTime_elapse: "minTime (elapse dt w) = minTime w"
  by (simp add: minTime_def elapse_def algebra_simps)

lemma new_watcher_loads:
  assumes d: "g_dir w1 = [(entry_filename pid j, \<lparr>f_mtime = t, f_content = Some c\<rparr>)]"
    and t: "minTime w1 \<le> t"
    and r: "globalContextWatchers w1 = None" and k: "g_kill w1 pid = Alive"
  shows "watchGlobalContext s w1 =
     (g_next_watcher w1,
      w1\<lparr>g_watchers := (g_watchers w1)(g_next_watcher w1 \<mapsto>
              \<lparr>subscribers = [s], configByFileName = [(entry_filename pid j, c)],
               lastCalled = (if 5000 \<le> g_now w1 then g_now w1 else 0), watch_closed = False\<rparr>),
          g_next_watcher := Suc (g_next_watcher w1),
          globalContextWatchers := Some (g_next_watcher w1),
          g_immediates := g_immediates w1 @ [EmitChange (g_next_watcher w1), EmitChange (g_next_watcher w1),
              NotifySubscriber (g_next_watcher w1) s]\<rparr>)"
  using assms
  by (simp add: watchGlobalContext_def getGlobalContextWatcher_def readAll_def minTime_def
      eventTriggered_def emit_def update_watcher_def purge_def purge_entry_def
      jsonFilename_exec_entry parseInt_show_nat subscribe_def Let_def)

lemma run_three:
  assumes w: "g_watchers w2 wid = Some \<lparr>subscribers = [s], configByFileName = [(f, c)],
               lastCalled = l, watch_closed = False\<rparr>"
    and i: "g_immediates w2 = [EmitChange wid, EmitChange wid, NotifySubscriber wid s]"
    and g: "g_getall w2 s = None"
  shows "run_immediate w2 = w2\<lparr>g_immediates := [EmitChange wid, NotifySubscriber wid s],
                                 g_delivered := g_delivered w2 @ [(s, [c])]\<rparr>"
    and "run_immediates 3 w2 = w2\<lparr>g_immediates := [],
                                 g_delivered := g_delivered w2 @ [(s, [c]), (s, [c]), (s, [c])]\<rparr>"
  using assms
  by (simp_all add: run_immediate_def numeral_3_eq_3 subscribers_of_def configs_of_def onChange_def)

lemma purge_dead:
  assumes w: "g_watchers w wid = Some \<lparr>subscribers = [s], configByFileName = [(entry_filename pid j, c)],
               lastCalled = l, watch_closed = False\<rparr>"
    and d: "g_dir w = [(entry_filename pid j, fl)]"
    and k: "g_kill w pid = ESRCH" and t: "l + 5000 \<le> g_now w"
  shows "purge wid w = w\<lparr>g_watchers := (g_watchers w)(wid \<mapsto> \<lparr>subscribers = [s], configByFileName = [],
               lastCalled = g_now w, watch_closed = False\<rparr>),
             g_dir := [], g_immediates := g_immediates w @ [EmitChange wid]\<rparr>"
  using assms
  by (simp add: purge_def purge_entry_def update_watcher_def emit_def
      jsonFilename_exec_entry parseInt_show_nat Let_def)


text \<open>
  C8. In a world where the directory of the key is empty, no watcher is registered and
  no callback is queued, let a live process \<open>pid\<close> call \<^verbatim>\<open>exposeGlobalContext\<close> with the
  context \<open>c\<close>: the entry's file is written. Let \<^verbatim>\<open>watchGlobalContext\<close> then subscribe \<open>s\<close>:
  the first notification of \<open>s\<close> is \<open>[c]\<close> (and so are the two that follow it). When the
  writer is dead and \<^verbatim>\<open>purge\<close> runs five seconds or more later (the interval of 30 s does
  that), the file of the entry is deleted and the next notification of \<open>s\<close> is \<open>[]\<close>.
\<close>

theorem expose_watch_purge:
  fixes w :: "'c world"
  assumes dir: "g_dir w = []" and reg: "globalContextWatchers w = None"
    and imm: "g_immediates w = []" and del: "g_delivered w = []"
    and cb: "g_getall w s = None" and alive: "g_kill w pid = Alive"
    and ex: "exposeGlobalContext pid i c w = (contextPath, i', w1)"
    and wa: "watchGlobalContext s (elapse dt w1) = (wid, w2)"
    and dt': "5 \<le> dt'"
  shows "g_dir w1 = [(contextPath, \<lparr>f_mtime = g_now w, f_content = Some c\<rparr>)]
    \<and> notifications_of s (run_immediate w2) = [[c]]
    \<and> notifications_of s (run_immediates 3 w2) = [[c], [c], [c]]
    \<and> g_immediates (run_immediates 3 w2) = []
    \<and> g_dir (purge wid (elapse dt' (process_dies pid (run_immediates 3 w2)))) = []
    \<and> notifications_of s (run_immediate (purge wid (elapse dt' (process_dies pid (run_immediates 3 w2)))))
        = [[c], [c], [c], []]"
proof -
  from ex dir have p: "contextPath = entry_filename pid (Suc i)"
    and w1: "w1 = w\<lparr>g_dir := [(contextPath, \<lparr>f_mtime = g_now w, f_content = Some c\<rparr>)]\<rparr>"
    by (auto simp: expose_empty)
  define e where "e = elapse dt w1"
  have e_dir: "g_dir e = [(entry_filename pid (Suc i), \<lparr>f_mtime = g_now w, f_content = Some c\<rparr>)]"
    and e_reg: "globalContextWatchers e = None" and e_alive: "g_kill e pid = Alive"
    and e_imm: "g_immediates e = []" and e_del: "g_delivered e = []" and e_cb: "g_getall e s = None"
    by (simp_all add: e_def w1 p elapse_def reg alive imm del cb)
  have "minTime e = minTime w"
    by (simp add: e_def minTime_elapse) (simp add: w1 minTime_def)
  then have e_t: "minTime e \<le> g_now w" by (simp add: minTime_def)
  from wa new_watcher_loads [OF e_dir e_t e_reg e_alive, of s]
  have wid: "wid = g_next_watcher e"
    and w2: "w2 = e\<lparr>g_watchers := (g_watchers e)(wid \<mapsto>
              \<lparr>subscribers = [s], configByFileName = [(entry_filename pid (Suc i), c)],
               lastCalled = (if 5000 \<le> g_now e then g_now e else 0), watch_closed = False\<rparr>),
          g_next_watcher := Suc wid,
          globalContextWatchers := Some wid,
          g_immediates := [EmitChange wid, EmitChange wid, NotifySubscriber wid s]\<rparr>"
    by (auto simp: e_def [symmetric] e_imm)
  have w2w: "g_watchers w2 wid = Some \<lparr>subscribers = [s], configByFileName = [(entry_filename pid (Suc i), c)],
               lastCalled = (if 5000 \<le> g_now e then g_now e else 0), watch_closed = False\<rparr>"
    and w2i: "g_immediates w2 = [EmitChange wid, EmitChange wid, NotifySubscriber wid s]"
    and w2g: "g_getall w2 s = None" and w2d: "g_delivered w2 = []"
    and w2dir: "g_dir w2 = [(entry_filename pid (Suc i), \<lparr>f_mtime = g_now w, f_content = Some c\<rparr>)]"
    and w2now: "g_now w2 = g_now e"
    by (simp_all add: w2 e_cb e_del e_dir)
  note r = run_three [OF w2w w2i w2g]
  define w3 where "w3 = run_immediates 3 w2"
  define w4 where "w4 = elapse dt' (process_dies pid w3)"
  have w3: "w3 = w2\<lparr>g_immediates := [], g_delivered := [(s, [c]), (s, [c]), (s, [c])]\<rparr>"
    by (simp add: w3_def r(2) w2d)
  have w4w: "g_watchers w4 wid = Some \<lparr>subscribers = [s], configByFileName = [(entry_filename pid (Suc i), c)],
               lastCalled = (if 5000 \<le> g_now e then g_now e else 0), watch_closed = False\<rparr>"
    and w4d: "g_dir w4 = [(entry_filename pid (Suc i), \<lparr>f_mtime = g_now w, f_content = Some c\<rparr>)]"
    and w4k: "g_kill w4 pid = ESRCH"
    and w4i: "g_immediates w4 = []" and w4g: "g_getall w4 s = None"
    and w4del: "g_delivered w4 = [(s, [c]), (s, [c]), (s, [c])]"
    and w4now: "g_now w4 = g_now e + dt' * 1000"
    by (simp_all add: w4_def w3 elapse_def process_dies_def w2w w2dir w2g w2now)
  have w4t: "(if 5000 \<le> g_now e then g_now e else 0) + 5000 \<le> g_now w4"
    using dt' by (simp add: w4now)
  note pu = purge_dead [OF w4w w4d w4k w4t]
  have last: "run_immediate (purge wid w4) = (purge wid w4)\<lparr>g_immediates := [],
       g_delivered := [(s, [c]), (s, [c]), (s, [c]), (s, [])]\<rparr>"
    by (simp add: pu run_immediate_def w4i subscribers_of_def configs_of_def onChange_def w4g w4del)
  show ?thesis
    unfolding w3_def [symmetric] w4_def [symmetric]
    by (simp add: w1 r(1) w2d notifications_of_def w3 last) (simp add: pu)
qed

text \<open>
  C9. While the timer of a call of \<^verbatim>\<open>getAllGlobalContexts\<close> is armed (no observation has
  reached its subscriber, whose \<^verbatim>\<open>onChange\<close> clears the timer) and its promise is pending,
  the timeout first unsubscribes the subscriber and then rejects the promise with
  \<^verbatim>\<open>undefined\<close>: no error value is supplied.
\<close>

theorem getAll_timeout_rejects_undefined:
  assumes "g_getall w s = Some ga" and "ga_timer ga" and "ga_promise ga = Pending"
  shows "\<exists>w'. getall_timeout_fires s w = Some w'
     \<and> g_actions w' = g_actions w @ [Unsubscribe s, Reject s None]
     \<and> s \<notin> set (subscribers_of (ga_watcher ga) w')
     \<and> map_option ga_promise (g_getall w' s) = Some (Rejected None)"
  using assms
  by (simp add: getall_timeout_fires_def ga_reject_def ga_settle_def unsubscribe_def ga_clearTimeout_def
      update_watcher_def subscribers_of_def Let_def split: option.splits)

lemma getAll_arms:
  "\<exists>ga. g_getall (getAllGlobalContexts s w) s = Some ga \<and> ga_timer ga \<and> ga_promise ga = Pending"
  by (simp add: getAllGlobalContexts_def split: prod.splits)

theorem expose_watch_purge_witness:
  "g_dir (snd (snd (exposeGlobalContext 4242 10000 [(''v'', 1)] fresh_world)))
     = [(fst (exposeGlobalContext 4242 10000 [(''v'', 1)] fresh_world),
         \<lparr>f_mtime = 1700000000000, f_content = Some [(''v'', 1)]\<rparr>)]
   \<and> notifications_of 7 (run_immediate (snd (watchGlobalContext 7
         (elapse 1 (snd (snd (exposeGlobalContext 4242 10000 [(''v'', 1)] fresh_world)))))))
     = [[[(''v'', 1)]]]
   \<and> g_dir (purge (fst (watchGlobalContext 7
           (elapse 1 (snd (snd (exposeGlobalContext 4242 10000 [(''v'', 1)] fresh_world))))))
         (elapse 30 (process_dies 4242 (run_immediates 3 (snd (watchGlobalContext 7
           (elapse 1 (snd (snd (exposeGlobalContext 4242 10000 [(''v'', 1)] fresh_world)))))))))) = []
   \<and> notifications_of 7 (run_immediate (purge (fst (watchGlobalContext 7
           (elapse 1 (snd (snd (exposeGlobalContext 4242 10000 [(''v'', 1)] fresh_world))))))
         (elapse 30 (process_dies 4242 (run_immediates 3 (snd (watchGlobalContext 7
           (elapse 1 (snd (snd (exposeGlobalContext 4242 10000 [(''v'', 1)] fresh_world))))))))))) 
     = [[[(''v'', 1)]], [[(''v'', 1)]], [[(''v'', 1)]], []]"
proof -
  have a: "g_dir fresh_world = []" "globalContextWatchers fresh_world = None"
    "g_immediates fresh_world = []" "g_delivered fresh_world = []"
    "g_getall fresh_world 7 = None" "g_kill fresh_world 4242 = Alive"
    "g_now fresh_world = 1700000000000"
    by (simp_all add: fresh_world_def)
  have e: "exposeGlobalContext 4242 10000 [(''v'', 1)] fresh_world
      = (fst (exposeGlobalContext 4242 10000 [(''v'', 1)] fresh_world),
         fst (snd (exposeGlobalContext 4242 10000 [(''v'', 1)] fresh_world)),
         snd (snd (exposeGlobalContext 4242 10000 [(''v'', 1)] fresh_world)))"
    by simp
  have wa: "watchGlobalContext 7 (elapse 1 (snd (snd (exposeGlobalContext 4242 10000 [(''v'', 1)] fresh_world))))
      = (fst (watchGlobalContext 7 (elapse 1 (snd (snd (exposeGlobalContext 4242 10000 [(''v'', 1)] fresh_world))))),
         snd (watchGlobalContext 7 (elapse 1 (snd (snd (exposeGlobalContext 4242 10000 [(''v'', 1)] fresh_world))))))"
    by simp
  have d: "(5::nat) \<le> 30" by simp
  from expose_watch_purge [OF a(1-6) e wa d] show ?thesis
    by (simp add: a(7))
qed

theorem getAll_timeout_rejects_undefined_witness:
  "\<exists>w'. getall_timeout_fires 7 (getAllGlobalContexts 7 fresh_world) = Some w'
     \<and> g_actions w' = g_actions (getAllGlobalContexts 7 fresh_world) @ [Unsubscribe 7, Reject 7 None]
     \<and> map_option ga_promise (g_getall w' 7) = Some (Rejected None)"
proof -
  obtain ga where "g_getall (getAllGlobalContexts 7 fresh_world) 7 = Some ga"
    and "ga_timer ga" and "ga_promise ga = Pending"
    using getAll_arms [of 7 fresh_world] by blast
  from getAll_timeout_rejects_undefined [OF this] show ?thesis by blast
qed


section \<open>Properties of the discovery\<close>

lemma start_inv: "discovery_inv (discovery_start key ms)"
  by (simp add: discovery_inv_def discovery_start_def)

lemma run_queue_inv: "loop_inv d \<Longrightarrow> discovery_inv (run_queue d)"
proof (induction d rule: run_queue.induct)
  case (1 d)
  show ?case
  proof (cases "queue d")
    case Nil
    with "1.prems" show ?thesis
      by (subst run_queue.simps) (auto simp: loop_inv_def discovery_inv_def)
  next
    case (Cons t rest)
    show ?thesis
    proof (cases t)
      case TimedOut
      have "loop_inv (timeout_task (d\<lparr>queue := rest\<rparr>))"
        using "1.prems" Cons
        by (auto simp: loop_inv_def timeout_task_def finalize_def d_settle_def split: promise.splits)
      from "1.IH"(2) [OF Cons TimedOut this] show ?thesis
        by (subst run_queue.simps) (simp add: Cons TimedOut)
    next
      case (Explore ports)
      have nf: "\<not> finalized d" using "1.prems" Cons by (auto simp: loop_inv_def)
      with "1.prems" have pend: "d_outcome d = Pending" by (simp add: loop_inv_def)
      show ?thesis
      proof (cases "ports = []")
        case True
        have "loop_inv (d\<lparr>queue := rest\<rparr>)"
          using "1.prems" Cons Explore by (auto simp: loop_inv_def)
        from "1.IH"(1) [OF Cons Explore True this] show ?thesis
          by (subst run_queue.simps) (simp add: Cons Explore True)
      next
        case False
        show ?thesis
        proof (cases "list_all valid_port ports")
          case True
          then have "filter valid_port ports = ports" by (simp add: list_all_iff)
          then have "discovery_inv (start_explore ports (d\<lparr>queue := rest\<rparr>))"
            using "1.prems" False nf Cons Explore
            by (auto simp: loop_inv_def discovery_inv_def start_explore_def Let_def)
          then show ?thesis
            by (subst run_queue.simps) (simp add: Cons Explore False True)
        next
          case bad: False
          have "discovery_inv (task_throws (start_explore ports (d\<lparr>queue := rest\<rparr>)))"
            using "1.prems" nf pend
            by (auto simp: loop_inv_def discovery_inv_def start_explore_def Let_def task_throws_def
                finalize_def d_settle_def)
          then show ?thesis
            by (subst run_queue.simps) (simp add: Cons Explore False bad)
        qed
      qed
    qed
  qed
qed

lemma task_settled_inv:
  assumes "inflight d = [] \<Longrightarrow> \<not> aborted d \<Longrightarrow> loop_inv d"
    and "inflight d \<noteq> [] \<or> aborted d \<Longrightarrow> discovery_inv d"
  shows "discovery_inv (task_settled d)"
  using assms by (auto simp: task_settled_def run_queue_inv)

lemma enqueue_explore_inv:
  assumes "discovery_inv d" and "\<not> finalized d"
  shows "discovery_inv (enqueue (Explore ports) d)"
proof (cases "running d")
  case True
  with assms show ?thesis
    by (auto simp: enqueue_def discovery_inv_def)
next
  case False
  with assms have "loop_inv (d\<lparr>queue := queue d @ [Explore ports], running := True\<rparr>)"
    by (auto simp: discovery_inv_def loop_inv_def)
  with False show ?thesis
    by (simp add: enqueue_def run_queue_inv)
qed

lemma timeout_fires_inv:
  assumes "discovery_inv d" and "d_timer d"
  shows "discovery_inv (enqueue TimedOut (d\<lparr>d_timer := False\<rparr>))"
proof (cases "running d")
  case True
  with assms show ?thesis
    by (auto simp: enqueue_def discovery_inv_def)
next
  case False
  with assms have "loop_inv (d\<lparr>d_timer := False, queue := queue d @ [TimedOut], running := True\<rparr>)"
    by (auto simp: discovery_inv_def loop_inv_def)
  with False show ?thesis
    by (simp add: enqueue_def run_queue_inv)
qed

lemma removeAll_empty: "removeAll s xs = [] \<Longrightarrow> x \<in> set xs \<Longrightarrow> x = s"
  using set_removeAll [of s xs] by auto

lemma inflight_fresh:
  assumes "discovery_inv d" and "s \<in> set (inflight d)"
  shows "s < d_next_socket d"
proof (rule ccontr)
  assume "\<not> s < d_next_socket d"
  then have "d_next_socket d \<le> s" by simp
  with assms(1) have "d_sockets d s = None" by (simp add: discovery_inv_def)
  moreover from assms have "d_sockets d s = Some Connecting" by (simp add: discovery_inv_def)
  ultimately show False by simp
qed

lemma connecting_not_winner:
  assumes "discovery_inv d" and "d_sockets d s = Some Connecting" and "\<not> aborted d"
  shows "d_outcome d \<noteq> Fulfilled s"
proof
  assume "d_outcome d = Fulfilled s"
  with assms(1,3) have "d_sockets d s = Some Opened" by (simp add: discovery_inv_def)
  with assms(2) show False by simp
qed

lemma socket_closed_inv:
  assumes inv: "discovery_inv d" and c: "d_sockets d s = Some Connecting" and i: "s \<in> set (inflight d)"
  shows "discovery_inv (task_settled (d\<lparr>inflight := removeAll s (inflight d),
                            d_sockets := (d_sockets d)(s \<mapsto> Closed)\<rparr>))"
proof (rule task_settled_inv)
  let ?d = "d\<lparr>inflight := removeAll s (inflight d), d_sockets := (d_sockets d)(s \<mapsto> Closed)\<rparr>"
  assume e: "inflight ?d = []" and na: "\<not> aborted ?d"
  then have na': "\<not> aborted d" by simp
  note f = inflight_fresh [OF inv i] connecting_not_winner [OF inv c na']
  from e inv c i f na' show "loop_inv ?d"
    unfolding discovery_inv_def loop_inv_def
    by (auto split: if_splits dest: removeAll_empty)
next
  let ?d = "d\<lparr>inflight := removeAll s (inflight d), d_sockets := (d_sockets d)(s \<mapsto> Closed)\<rparr>"
  note f = inflight_fresh [OF inv i] connecting_not_winner [OF inv c]
  assume "inflight ?d \<noteq> [] \<or> aborted ?d"
  with inv c i f show "discovery_inv ?d"
    unfolding discovery_inv_def
    by (auto split: if_splits)
qed

lemma socket_wins_inv:
  assumes inv: "discovery_inv d" and c: "d_sockets d s = Some Connecting" and i: "s \<in> set (inflight d)"
    and h: "\<not> hostSelected d"
  shows "discovery_inv (task_settled (d_settle (Fulfilled s)
                          (finalize (d\<lparr>inflight := removeAll s (inflight d), d_sockets := (d_sockets d)(s \<mapsto> Opened),
                                        hostSelected := True\<rparr>))))"
proof (cases "aborted d")
  case False
  note f = inflight_fresh [OF inv i]
  from h inv i False have p: "d_outcome d = Pending" and nf: "\<not> finalized d"
    by (auto simp: discovery_inv_def)
  define d' where "d' = d_settle (Fulfilled s)
                          (finalize (d\<lparr>inflight := removeAll s (inflight d), d_sockets := (d_sockets d)(s \<mapsto> Opened),
                                        hostSelected := True\<rparr>))"
  have d': "d' = d\<lparr>inflight := removeAll s (inflight d), d_sockets := (d_sockets d)(s \<mapsto> Opened),
                   hostSelected := True, finalized := True, queue := [], d_watching := False,
                   d_timer := False, d_outcome := Fulfilled s\<rparr>"
    by (simp add: d'_def d_settle_def finalize_def p)
  have "discovery_inv (task_settled d')"
  proof (rule task_settled_inv)
    assume "inflight d' = []"
    with inv c i p f False show "loop_inv d'"
      unfolding discovery_inv_def loop_inv_def d'
      by (auto split: if_splits dest: removeAll_empty)
  next
    assume "inflight d' \<noteq> [] \<or> aborted d'"
    with inv c i p f False show "discovery_inv d'"
      unfolding discovery_inv_def d'
      by (auto split: if_splits)
  qed
  then show ?thesis by (simp add: d'_def)
next
  case True
  note f = inflight_fresh [OF inv i]
  from inv True have p: "d_outcome d = Rejected caught_unexpected" and fin: "finalized d"
    by (auto simp: discovery_inv_def)
  define d' where "d' = d_settle (Fulfilled s)
                          (finalize (d\<lparr>inflight := removeAll s (inflight d), d_sockets := (d_sockets d)(s \<mapsto> Opened),
                                        hostSelected := True\<rparr>))"
  have d': "d' = d\<lparr>inflight := removeAll s (inflight d), d_sockets := (d_sockets d)(s \<mapsto> Opened),
                   hostSelected := True, finalized := True, queue := [], d_watching := False,
                   d_timer := False\<rparr>"
    by (simp add: d'_def d_settle_def finalize_def p)
  have "discovery_inv d'"
    using inv c i p f True unfolding discovery_inv_def d'
    by (auto split: if_splits)
  moreover have "task_settled d' = d'" using True by (simp add: task_settled_def d')
  ultimately show ?thesis by (simp add: d'_def)
qed

lemma step_inv: "discovery_inv d \<Longrightarrow> discovery_inv (step d ev)"
proof (cases ev)
  case (Snapshot configs)
  assume "discovery_inv d"
  then show ?thesis by (simp add: step_def Snapshot enqueue_explore_inv)
next
  case (SocketOpens s)
  assume "discovery_inv d"
  then show ?thesis
    by (simp add: step_def SocketOpens Let_def socket_closed_inv socket_wins_inv)
next
  case (SocketFails s)
  assume "discovery_inv d"
  then show ?thesis
    by (simp add: step_def SocketFails socket_closed_inv)
next
  case TimeoutFires
  assume inv: "discovery_inv d"
  then show ?thesis by (simp add: step_def TimeoutFires timeout_fires_inv)
qed

lemma run_events_inv: "discovery_inv d \<Longrightarrow> discovery_inv (run_events d evs)"
  unfolding run_events_def
  by (induction evs arbitrary: d) (simp_all add: step_inv)

lemma run_queue_empty: "queue d = [] \<Longrightarrow> run_queue d = d\<lparr>running := False\<rparr>"
  by (subst run_queue.simps) simp

lemma run_queue_params:
  "timeoutMilliseconds (run_queue d) = timeoutMilliseconds d \<and> d_key (run_queue d) = d_key d"
proof (induction d rule: run_queue.induct)
  case (1 d)
  show ?case
  proof (cases "queue d")
    case Nil
    then show ?thesis by (simp add: run_queue_empty)
  next
    case (Cons t rest)
    show ?thesis
    proof (cases t)
      case TimedOut
      from "1.IH"(2) [OF Cons TimedOut] show ?thesis
        by (subst (1 2) run_queue.simps)
           (simp add: Cons TimedOut timeout_task_def finalize_def d_settle_def split: promise.splits)
    next
      case (Explore ports)
      show ?thesis
      proof (cases "ports = []")
        case True
        from "1.IH"(1) [OF Cons Explore True] show ?thesis
          by (subst (1 2) run_queue.simps) (simp add: Cons Explore True)
      next
        case False
        then show ?thesis
          by (subst (1 2) run_queue.simps)
             (simp add: Cons Explore False start_explore_def Let_def task_throws_def finalize_def
                d_settle_def split: promise.splits)
      qed
    qed
  qed
qed

lemma step_params:
  "timeoutMilliseconds (step d ev) = timeoutMilliseconds d \<and> d_key (step d ev) = d_key d"
  by (cases ev)
     (simp_all add: step_def enqueue_def task_settled_def run_queue_params Let_def
        d_settle_def finalize_def split: promise.splits)

lemma run_events_params:
  "timeoutMilliseconds (run_events d evs) = timeoutMilliseconds d \<and> d_key (run_events d evs) = d_key d"
  unfolding run_events_def
  by (induction evs arbitrary: d) (simp_all add: step_params)

lemma settled_stays:
  assumes inv: "discovery_inv d" and s: "d_outcome d \<noteq> Pending"
  shows "d_outcome (step d ev) = d_outcome d"
proof -
  from inv s have f: "finalized d" and q: "queue d = []" and t: "\<not> d_timer d"
    by (auto simp: discovery_inv_def)
  show ?thesis
  proof (cases ev)
    case (Snapshot configs)
    with f show ?thesis by (simp add: step_def)
  next
    case (SocketOpens x)
    with q s show ?thesis
      by (auto simp: step_def Let_def task_settled_def run_queue_empty d_settle_def finalize_def
          split: promise.splits)
  next
    case (SocketFails x)
    with q show ?thesis
      by (auto simp: step_def task_settled_def run_queue_empty)
  next
    case TimeoutFires
    with t show ?thesis by (simp add: step_def)
  qed
qed

lemma first_open_wins:
  assumes inv: "discovery_inv d" and p: "d_outcome d = Pending" and c: "d_sockets d s = Some Connecting"
  shows "d_outcome (step d (SocketOpens s)) = Fulfilled s
         \<and> d_sockets (step d (SocketOpens s)) s = Some Opened"
proof -
  from inv c have i: "s \<in> set (inflight d)" by (simp add: discovery_inv_def)
  from inv p have na: "\<not> aborted d" by (auto simp: discovery_inv_def)
  with i inv p have h: "\<not> hostSelected d" by (auto simp: discovery_inv_def)
  show ?thesis
    using c i h p
    by (simp add: step_def Let_def task_settled_def d_settle_def finalize_def run_queue_empty)
qed

lemma later_open_closed:
  assumes inv: "discovery_inv d" and p: "d_outcome d \<noteq> Pending" and na: "\<not> aborted d"
    and c: "d_sockets d s = Some Connecting"
  shows "d_sockets (step d (SocketOpens s)) s = Some Closed"
proof -
  from inv c have i: "s \<in> set (inflight d)" by (simp add: discovery_inv_def)
  with inv p na have h: "hostSelected d" and q: "queue d = []" by (auto simp: discovery_inv_def)
  show ?thesis
    using c i h q
    by (simp add: step_def Let_def task_settled_def run_queue_empty)
qed

lemma run_queue_sockets:
  assumes "d_sockets d s = Some Closed" and "\<forall>x. d_next_socket d \<le> x \<longrightarrow> d_sockets d x = None"
  shows "d_sockets (run_queue d) s = Some Closed"
  using assms
proof (induction d rule: run_queue.induct)
  case (1 d)
  have lt: "s < d_next_socket d"
  proof (rule ccontr)
    assume "\<not> s < d_next_socket d"
    then have "d_next_socket d \<le> s" by simp
    with "1.prems" show False by simp
  qed
  show ?case
  proof (cases "queue d")
    case Nil
    with "1.prems" show ?thesis by (simp add: run_queue_empty)
  next
    case (Cons t rest)
    show ?thesis
    proof (cases t)
      case TimedOut
      have "d_sockets (run_queue (timeout_task (d\<lparr>queue := rest\<rparr>))) s = Some Closed"
        by (rule "1.IH"(2) [OF Cons TimedOut])
           (use "1.prems" in \<open>auto simp: timeout_task_def finalize_def d_settle_def split: promise.splits\<close>)
      then show ?thesis by (subst run_queue.simps) (simp add: Cons TimedOut)
    next
      case (Explore ports)
      show ?thesis
      proof (cases "ports = []")
        case True
        have "d_sockets (run_queue (d\<lparr>queue := rest\<rparr>)) s = Some Closed"
          by (rule "1.IH"(1) [OF Cons Explore True]) (use "1.prems" in auto)
        then show ?thesis by (subst run_queue.simps) (simp add: Cons Explore True)
      next
        case False
        with "1.prems"(1) lt show ?thesis
          by (subst run_queue.simps)
             (simp add: Cons Explore False start_explore_def Let_def task_throws_def finalize_def
                d_settle_def split: promise.splits)
      qed
    qed
  qed
qed

lemma fail_closes:
  assumes inv: "discovery_inv d" and c: "d_sockets d s = Some Connecting"
  shows "d_sockets (step d (SocketFails s)) s = Some Closed"
proof -
  from inv c have i: "s \<in> set (inflight d)" by (simp add: discovery_inv_def)
  let ?d = "d\<lparr>inflight := removeAll s (inflight d), d_sockets := (d_sockets d)(s \<mapsto> Closed)\<rparr>"
  have b: "\<forall>x. d_next_socket ?d \<le> x \<longrightarrow> d_sockets ?d x = None"
    using inv inflight_fresh [OF inv i] by (auto simp: discovery_inv_def)
  have "d_sockets (run_queue ?d) s = Some Closed"
    by (rule run_queue_sockets [OF _ b]) simp
  then have "d_sockets (task_settled ?d) s = Some Closed"
    by (auto simp: task_settled_def)
  with c i show ?thesis by (simp add: step_def)
qed

lemma timeout_idle:
  assumes inv: "discovery_inv d" and p: "d_outcome d = Pending" and t: "d_timer d" and r: "\<not> running d"
  shows "d_outcome (step d TimeoutFires) = Rejected (timed_out (timeoutMilliseconds d))"
proof -
  from inv r p have q: "queue d = []" and f: "\<not> finalized d" by (auto simp: discovery_inv_def)
  show ?thesis
    using t r q f p
    by (simp add: step_def enqueue_def run_queue.simps [of "d\<lparr>d_timer := False, queue := [TimedOut], running := True\<rparr>"]
        timeout_task_def finalize_def d_settle_def run_queue_empty)
qed

lemma timeout_waits:
  assumes t: "d_timer d" and r: "running d"
  shows "step d TimeoutFires = d\<lparr>d_timer := False, queue := queue d @ [TimedOut]\<rparr>"
  using assms by (simp add: step_def enqueue_def)

lemma timeout_task_waiting:
  assumes inv: "discovery_inv d" and p: "d_outcome d = Pending" and t: "\<not> d_timer d"
  shows "TimedOut \<in> set (queue d) \<and> running d"
proof -
  from inv p have "\<not> finalized d" by (simp add: discovery_inv_def)
  with inv t have q: "TimedOut \<in> set (queue d)" by (simp add: discovery_inv_def)
  then have "queue d \<noteq> []" by auto
  with inv have "running d" by (auto simp: discovery_inv_def)
  with q show ?thesis by simp
qed

lemma next_task_simps [simp]:
  "next_task [] = None"
  "next_task (TimedOut # q) = Some TimedOut"
  "next_task (Explore [] # q) = next_task q"
  "ports \<noteq> [] \<Longrightarrow> next_task (Explore ports # q) = Some (Explore ports)"
  by (simp_all add: next_task_def)

lemma run_queue_outcome:
  assumes "d_outcome d = Pending" and "\<not> finalized d" and "timeoutMilliseconds d = ms"
  shows "d_outcome (run_queue d) =
           (case next_task (queue d) of
              Some TimedOut \<Rightarrow> Rejected (timed_out ms)
            | Some (Explore ports) \<Rightarrow>
                if list_all valid_port ports then Pending else Rejected caught_unexpected
            | None \<Rightarrow> Pending)"
  using assms
proof (induction d rule: run_queue.induct)
  case (1 d)
  show ?case
  proof (cases "queue d")
    case Nil
    with "1.prems" show ?thesis by (simp add: run_queue_empty)
  next
    case (Cons t rest)
    show ?thesis
    proof (cases t)
      case TimedOut
      have eq: "run_queue d = run_queue (timeout_task (d\<lparr>queue := rest\<rparr>))"
        by (subst run_queue.simps) (simp add: Cons TimedOut)
      have "run_queue (timeout_task (d\<lparr>queue := rest\<rparr>))
              = (timeout_task (d\<lparr>queue := rest\<rparr>))\<lparr>running := False\<rparr>"
        using "1.prems" by (intro run_queue_empty) (simp add: timeout_task_def finalize_def d_settle_def)
      then show ?thesis
        unfolding eq using "1.prems"
        by (simp add: Cons TimedOut timeout_task_def finalize_def d_settle_def)
    next
      case (Explore ports)
      show ?thesis
      proof (cases "ports = []")
        case True
        have eq: "run_queue d = run_queue (d\<lparr>queue := rest\<rparr>)"
          by (subst run_queue.simps) (simp add: Cons Explore True)
        have "d_outcome (run_queue (d\<lparr>queue := rest\<rparr>)) =
           (case next_task (queue (d\<lparr>queue := rest\<rparr>)) of
              Some TimedOut \<Rightarrow> Rejected (timed_out ms)
            | Some (Explore ports) \<Rightarrow>
                if list_all valid_port ports then Pending else Rejected caught_unexpected
            | None \<Rightarrow> Pending)"
          by (rule "1.IH"(1) [OF Cons Explore True]) (use "1.prems" in simp_all)
        then show ?thesis
          unfolding eq by (simp add: Cons Explore True)
      next
        case False
        have eq: "run_queue d = (if list_all valid_port ports then start_explore ports (d\<lparr>queue := rest\<rparr>)
                    else task_throws (start_explore ports (d\<lparr>queue := rest\<rparr>)))"
          by (subst run_queue.simps) (simp add: Cons Explore False)
        show ?thesis
          unfolding eq using "1.prems" False
          by (simp add: Cons Explore start_explore_def Let_def task_throws_def finalize_def
                d_settle_def)
      qed
    qed
  qed
qed

lemma removeAll_eq_Nil: "removeAll s xs = [] \<longleftrightarrow> set xs \<subseteq> {s}"
  by (induction xs) auto

lemma exploration_ends:
  assumes inv: "discovery_inv d" and p: "d_outcome d = Pending"
    and c: "d_sockets d s = Some Connecting"
    and only: "\<forall>s'. d_sockets d s' = Some Connecting \<longrightarrow> s' = s"
    and ms: "timeoutMilliseconds d = ms"
  shows "d_outcome (step d (SocketFails s)) =
           (case next_task (queue d) of
              Some TimedOut \<Rightarrow> Rejected (timed_out ms)
            | Some (Explore ports) \<Rightarrow>
                if list_all valid_port ports then Pending else Rejected caught_unexpected
            | None \<Rightarrow> Pending)"
proof -
  from inv c have i: "s \<in> set (inflight d)" by (simp add: discovery_inv_def)
  from inv only have "set (inflight d) \<subseteq> {s}" by (auto simp: discovery_inv_def)
  then have e: "removeAll s (inflight d) = []" by (simp only: removeAll_eq_Nil)
  from inv p have f: "\<not> finalized d" and na: "\<not> aborted d" by (auto simp: discovery_inv_def)
  let ?d = "d\<lparr>inflight := [], d_sockets := (d_sockets d)(s \<mapsto> Closed)\<rparr>"
  have "step d (SocketFails s) = run_queue ?d"
    using c i na e by (simp add: step_def task_settled_def)
  moreover have "d_outcome ?d = Pending" "\<not> finalized ?d" "timeoutMilliseconds ?d = ms"
    using p f ms by simp_all
  ultimately show ?thesis using run_queue_outcome [of ?d ms] by simp
qed

lemma exploration_goes_on:
  assumes inv: "discovery_inv d" and c: "d_sockets d s = Some Connecting"
    and c': "d_sockets d s' = Some Connecting" and ne: "s' \<noteq> s"
  shows "d_outcome (step d (SocketFails s)) = d_outcome d
         \<and> queue (step d (SocketFails s)) = queue d
         \<and> d_sockets (step d (SocketFails s)) s' = Some Connecting"
proof -
  from inv c c' have m: "s \<in> set (inflight d)" and m': "s' \<in> set (inflight d)"
    by (simp_all add: discovery_inv_def)
  from m' ne have "removeAll s (inflight d) \<noteq> []" by (auto simp: removeAll_eq_Nil)
  with c c' m ne show ?thesis by (simp add: step_def task_settled_def)
qed

lemma run_queue_ports: "ports_inv d \<Longrightarrow> ports_inv (run_queue d)"
proof (induction d rule: run_queue.induct)
  case (1 d)
  show ?case
  proof (cases "queue d")
    case Nil
    with "1.prems" show ?thesis by (simp add: run_queue_empty ports_inv_def)
  next
    case (Cons t rest)
    show ?thesis
    proof (cases t)
      case TimedOut
      have eq: "run_queue d = run_queue (timeout_task (d\<lparr>queue := rest\<rparr>))"
        by (subst run_queue.simps) (simp add: Cons TimedOut)
      have "ports_inv (timeout_task (d\<lparr>queue := rest\<rparr>))"
        using "1.prems" Cons
        by (auto simp: ports_inv_def timeout_task_def finalize_def d_settle_def split: promise.splits)
      then show ?thesis unfolding eq by (rule "1.IH"(2) [OF Cons TimedOut])
    next
      case (Explore ports)
      from "1.prems" Cons Explore have v: "list_all valid_port ports" by (simp add: ports_inv_def)
      show ?thesis
      proof (cases "ports = []")
        case True
        have eq: "run_queue d = run_queue (d\<lparr>queue := rest\<rparr>)"
          by (subst run_queue.simps) (simp add: Cons Explore True)
        have "ports_inv (d\<lparr>queue := rest\<rparr>)"
          using "1.prems" Cons by (auto simp: ports_inv_def)
        then show ?thesis unfolding eq by (rule "1.IH"(1) [OF Cons Explore True])
      next
        case False
        have eq: "run_queue d = start_explore ports (d\<lparr>queue := rest\<rparr>)"
          by (subst run_queue.simps) (simp add: Cons Explore False v)
        show ?thesis
          unfolding eq using "1.prems" Cons
          by (auto simp: ports_inv_def start_explore_def Let_def)
      qed
    qed
  qed
qed

lemma task_settled_ports: "ports_inv d \<Longrightarrow> ports_inv (task_settled d)"
  by (simp add: task_settled_def run_queue_ports)

lemma enqueue_ports:
  assumes "ports_inv d" and "\<And>ports. t = Explore ports \<Longrightarrow> list_all valid_port ports"
  shows "ports_inv (enqueue t d)"
proof -
  have "ports_inv (d\<lparr>queue := queue d @ [t]\<rparr>)"
    using assms by (auto simp: ports_inv_def)
  moreover have "ports_inv (d\<lparr>queue := queue d @ [t], running := True\<rparr>)"
    using assms by (auto simp: ports_inv_def)
  ultimately show ?thesis by (simp add: enqueue_def Let_def run_queue_ports)
qed

lemma step_ports:
  assumes inv: "ports_inv d" and v: "valid_event (d_key d) ev"
  shows "ports_inv (step d ev)"
proof (cases ev)
  case (Snapshot configs)
  have "list_all valid_port (map snd (filter (\<lambda>config. fst config = d_key d) configs))"
    using v by (auto simp: valid_event_def Snapshot list_all_iff)
  then have "ports_inv (enqueue (Explore (map snd (filter (\<lambda>config. fst config = d_key d) configs))) d)"
    using inv by (intro enqueue_ports) simp_all
  with inv show ?thesis by (simp add: step_def Snapshot)
next
  case (SocketOpens s)
  have a: "ports_inv (d\<lparr>inflight := removeAll s (inflight d), d_sockets := (d_sockets d)(s \<mapsto> Closed)\<rparr>)"
    using inv by (simp add: ports_inv_def)
  have b: "ports_inv (d_settle (Fulfilled s) (finalize (d\<lparr>inflight := removeAll s (inflight d),
                 d_sockets := (d_sockets d)(s \<mapsto> Opened), hostSelected := True\<rparr>)))"
    using inv by (simp add: ports_inv_def d_settle_def finalize_def split: promise.splits)
  from inv a b show ?thesis
    by (simp add: step_def SocketOpens Let_def task_settled_ports)
next
  case (SocketFails s)
  have "ports_inv (d\<lparr>inflight := removeAll s (inflight d), d_sockets := (d_sockets d)(s \<mapsto> Closed)\<rparr>)"
    using inv by (simp add: ports_inv_def)
  with inv show ?thesis by (simp add: step_def SocketFails task_settled_ports)
next
  case TimeoutFires
  have "ports_inv (d\<lparr>d_timer := False\<rparr>)" using inv by (simp add: ports_inv_def)
  then have "ports_inv (enqueue TimedOut (d\<lparr>d_timer := False\<rparr>))"
    by (rule enqueue_ports) simp
  with inv show ?thesis by (simp add: step_def TimeoutFires)
qed

lemma run_events_ports:
  "ports_inv d \<Longrightarrow> list_all (valid_event (d_key d)) evs \<Longrightarrow> ports_inv (run_events d evs)"
  unfolding run_events_def
  by (induction evs arbitrary: d) (simp_all add: step_ports step_params)

lemma valid_events_not_aborted:
  assumes "list_all (valid_event key) evs"
  shows "\<not> aborted (run_events (discovery_start key ms) evs)"
proof -
  have "ports_inv (discovery_start key ms)" by (simp add: ports_inv_def discovery_start_def)
  moreover have "d_key (discovery_start key ms) = key" by (simp add: discovery_start_def)
  ultimately have "ports_inv (run_events (discovery_start key ms) evs)"
    using assms run_events_ports [of "discovery_start key ms" evs] by simp
  then show ?thesis by (simp add: ports_inv_def)
qed

text \<open>
  C4, as the code has it. In every state that the callbacks can reach from the start of
  \<^verbatim>\<open>discoverMessageChannel\<close>: no task has thrown when every port advertised under the key
  was a port number; then a socket is open exactly when the promise is resolved with
  it, so there is one open channel after the promise has resolved and none before; a
  settled promise stays as it is; while the promise is pending, a candidate that
  completes its handshake wins, whether the timer has fired or not; after that, a
  candidate that completes is closed at once, and a candidate that fails is closed. The
  timeout rejects the promise when it fires while no snapshot is being explored. When it
  fires during an exploration, its task goes to the end of the queue, and as long as the
  promise is pending it waits there. When the last candidate of an exploration has
  failed, the loop of the queue takes the next task: the task of the timer rejects the
  promise; an exploration that was queued before it runs first and leaves the promise
  pending. While another candidate is still connecting, a failure changes nothing.
\<close>

theorem discovery_one_winner:
  assumes d: "d = run_events (discovery_start key ms) evs"
  shows "(list_all (valid_event key) evs \<longrightarrow> \<not> aborted d)
    \<and> (\<not> aborted d \<longrightarrow> (d_sockets d s = Some Opened) = (d_outcome d = Fulfilled s))
    \<and> (d_outcome d \<noteq> Pending \<longrightarrow> d_outcome (step d ev) = d_outcome d)
    \<and> (d_outcome d = Pending \<and> d_sockets d s = Some Connecting
         \<longrightarrow> d_outcome (step d (SocketOpens s)) = Fulfilled s
             \<and> d_sockets (step d (SocketOpens s)) s = Some Opened)
    \<and> (\<not> aborted d \<and> d_outcome d \<noteq> Pending \<and> d_sockets d s = Some Connecting
         \<longrightarrow> d_sockets (step d (SocketOpens s)) s = Some Closed)
    \<and> (d_sockets d s = Some Connecting \<longrightarrow> d_sockets (step d (SocketFails s)) s = Some Closed)
    \<and> (d_outcome d = Pending \<and> d_timer d \<and> \<not> running d
         \<longrightarrow> d_outcome (step d TimeoutFires) = Rejected (timed_out ms))
    \<and> (d_outcome d = Pending \<and> d_timer d \<and> running d
         \<longrightarrow> step d TimeoutFires = d\<lparr>d_timer := False, queue := queue d @ [TimedOut]\<rparr>)
    \<and> (d_outcome d = Pending \<and> \<not> d_timer d \<longrightarrow> TimedOut \<in> set (queue d) \<and> running d)
    \<and> (d_outcome d = Pending \<and> d_sockets d s = Some Connecting
          \<and> (\<forall>s'. d_sockets d s' = Some Connecting \<longrightarrow> s' = s)
         \<longrightarrow> d_outcome (step d (SocketFails s)) =
               (case next_task (queue d) of
                  Some TimedOut \<Rightarrow> Rejected (timed_out ms)
                | Some (Explore ports) \<Rightarrow>
                    if list_all valid_port ports then Pending else Rejected caught_unexpected
                | None \<Rightarrow> Pending))
    \<and> (d_sockets d s = Some Connecting \<and> d_sockets d s' = Some Connecting \<and> s' \<noteq> s
         \<longrightarrow> d_outcome (step d (SocketFails s)) = d_outcome d
             \<and> queue (step d (SocketFails s)) = queue d
             \<and> d_sockets (step d (SocketFails s)) s' = Some Connecting)"
proof -
  have inv: "discovery_inv d"
    unfolding d by (rule run_events_inv) (rule start_inv)
  have ms: "timeoutMilliseconds d = ms"
    unfolding d by (simp add: run_events_params discovery_start_def)
  have 1: "list_all (valid_event key) evs \<longrightarrow> \<not> aborted d"
    unfolding d by (simp add: valid_events_not_aborted)
  have 2: "\<not> aborted d \<longrightarrow> (d_sockets d s = Some Opened) = (d_outcome d = Fulfilled s)"
    using inv by (simp add: discovery_inv_def)
  have 3: "d_outcome d \<noteq> Pending \<longrightarrow> d_outcome (step d ev) = d_outcome d"
    using settled_stays [OF inv] by simp
  have 4: "d_outcome d = Pending \<and> d_sockets d s = Some Connecting
         \<longrightarrow> d_outcome (step d (SocketOpens s)) = Fulfilled s
             \<and> d_sockets (step d (SocketOpens s)) s = Some Opened"
    using first_open_wins [OF inv] by simp
  have 5: "\<not> aborted d \<and> d_outcome d \<noteq> Pending \<and> d_sockets d s = Some Connecting
         \<longrightarrow> d_sockets (step d (SocketOpens s)) s = Some Closed"
    using later_open_closed [OF inv] by simp
  have 6: "d_sockets d s = Some Connecting \<longrightarrow> d_sockets (step d (SocketFails s)) s = Some Closed"
    using fail_closes [OF inv] by simp
  have 7: "d_outcome d = Pending \<and> d_timer d \<and> \<not> running d
         \<longrightarrow> d_outcome (step d TimeoutFires) = Rejected (timed_out ms)"
    using timeout_idle [OF inv] by (simp add: ms)
  have 8: "d_outcome d = Pending \<and> d_timer d \<and> running d
         \<longrightarrow> step d TimeoutFires = d\<lparr>d_timer := False, queue := queue d @ [TimedOut]\<rparr>"
    using timeout_waits [of d] by simp
  have 9: "d_outcome d = Pending \<and> \<not> d_timer d \<longrightarrow> TimedOut \<in> set (queue d) \<and> running d"
    using timeout_task_waiting [OF inv] by simp
  have 10: "d_outcome d = Pending \<and> d_sockets d s = Some Connecting
          \<and> (\<forall>s'. d_sockets d s' = Some Connecting \<longrightarrow> s' = s)
         \<longrightarrow> d_outcome (step d (SocketFails s)) =
               (case next_task (queue d) of
                  Some TimedOut \<Rightarrow> Rejected (timed_out ms)
                | Some (Explore ports) \<Rightarrow>
                    if list_all valid_port ports then Pending else Rejected caught_unexpected
                | None \<Rightarrow> Pending)"
    using exploration_ends [OF inv _ _ _ ms] by blast
  have 11: "d_sockets d s = Some Connecting \<and> d_sockets d s' = Some Connecting \<and> s' \<noteq> s
         \<longrightarrow> d_outcome (step d (SocketFails s)) = d_outcome d
             \<and> queue (step d (SocketFails s)) = queue d
             \<and> d_sockets (step d (SocketFails s)) s' = Some Connecting"
    using exploration_goes_on [OF inv] by blast
  from 1 2 3 4 5 6 7 8 9 10 11 show ?thesis by (intro conjI)
qed

lemmas discovery_eval = run_events_def step_def enqueue_def run_queue.simps start_explore_def
  discovery_start_def task_settled_def finalize_def d_settle_def timeout_task_def upt_rec
  valid_port_def task_throws_def

lemma two_candidates:
  "d_outcome (run_events (discovery_start ''k'' 3000) [Snapshot [(''k'', 8080), (''j'', 9), (''k'', 8081)]]) = Pending"
  "d_sockets (run_events (discovery_start ''k'' 3000) [Snapshot [(''k'', 8080), (''j'', 9), (''k'', 8081)]]) 1 = Some Connecting"
  "d_timer (run_events (discovery_start ''k'' 3000) [Snapshot [(''k'', 8080), (''j'', 9), (''k'', 8081)]])"
  "running (run_events (discovery_start ''k'' 3000) [Snapshot [(''k'', 8080), (''j'', 9), (''k'', 8081)]])"
  "list_all (valid_event ''k'') [Snapshot [(''k'', 8080), (''j'', 9), (''k'', 8081)]]"
  by (simp_all add: discovery_eval valid_event_def)

lemma one_won:
  "d_outcome (run_events (discovery_start ''k'' 3000)
      [Snapshot [(''k'', 8080), (''j'', 9), (''k'', 8081)], SocketOpens 1]) = Fulfilled 1"
  "d_sockets (run_events (discovery_start ''k'' 3000)
      [Snapshot [(''k'', 8080), (''j'', 9), (''k'', 8081)], SocketOpens 1]) 0 = Some Connecting"
  "list_all (valid_event ''k'') [Snapshot [(''k'', 8080), (''j'', 9), (''k'', 8081)], SocketOpens 1]"
  by (simp_all add: discovery_eval valid_event_def)

lemma idle_start:
  "d_outcome (run_events (discovery_start ''k'' 3000) []) = Pending"
  "d_timer (run_events (discovery_start ''k'' 3000) [])"
  "\<not> running (run_events (discovery_start ''k'' 3000) [])"
  by (simp_all add: discovery_eval)

lemma timeout_behind_snapshot:
  "d_outcome (run_events (discovery_start ''k'' 3000)
      [Snapshot [(''k'', 8080)], Snapshot [(''k'', 8081)], TimeoutFires]) = Pending"
  "\<not> d_timer (run_events (discovery_start ''k'' 3000)
      [Snapshot [(''k'', 8080)], Snapshot [(''k'', 8081)], TimeoutFires])"
  "d_sockets (run_events (discovery_start ''k'' 3000)
      [Snapshot [(''k'', 8080)], Snapshot [(''k'', 8081)], TimeoutFires]) 0 = Some Connecting"
  "\<forall>s'. d_sockets (run_events (discovery_start ''k'' 3000)
      [Snapshot [(''k'', 8080)], Snapshot [(''k'', 8081)], TimeoutFires]) s' = Some Connecting \<longrightarrow> s' = 0"
  "queue (run_events (discovery_start ''k'' 3000)
      [Snapshot [(''k'', 8080)], Snapshot [(''k'', 8081)], TimeoutFires]) = [Explore [8081], TimedOut]"
  by (simp_all add: discovery_eval)

lemma second_exploration:
  "d_outcome (run_events (discovery_start ''k'' 3000)
      [Snapshot [(''k'', 8080)], Snapshot [(''k'', 8081)], TimeoutFires, SocketFails 0]) = Pending"
  "d_sockets (run_events (discovery_start ''k'' 3000)
      [Snapshot [(''k'', 8080)], Snapshot [(''k'', 8081)], TimeoutFires, SocketFails 0]) 1 = Some Connecting"
  "\<forall>s'. d_sockets (run_events (discovery_start ''k'' 3000)
      [Snapshot [(''k'', 8080)], Snapshot [(''k'', 8081)], TimeoutFires, SocketFails 0]) s' = Some Connecting \<longrightarrow> s' = 1"
  "queue (run_events (discovery_start ''k'' 3000)
      [Snapshot [(''k'', 8080)], Snapshot [(''k'', 8081)], TimeoutFires, SocketFails 0]) = [TimedOut]"
  by (simp_all add: discovery_eval)

theorem discovery_one_winner_witness:
  "\<not> aborted (run_events (discovery_start ''k'' 3000) [Snapshot [(''k'', 8080), (''j'', 9), (''k'', 8081)]])
   \<and> d_outcome (step (run_events (discovery_start ''k'' 3000)
                      [Snapshot [(''k'', 8080), (''j'', 9), (''k'', 8081)]]) (SocketOpens 1)) = Fulfilled 1
   \<and> step (run_events (discovery_start ''k'' 3000)
               [Snapshot [(''k'', 8080), (''j'', 9), (''k'', 8081)]]) TimeoutFires
     = (run_events (discovery_start ''k'' 3000) [Snapshot [(''k'', 8080), (''j'', 9), (''k'', 8081)]])
         \<lparr>d_timer := False,
          queue := queue (run_events (discovery_start ''k'' 3000)
                            [Snapshot [(''k'', 8080), (''j'', 9), (''k'', 8081)]]) @ [TimedOut]\<rparr>
   \<and> d_sockets (run_events (discovery_start ''k'' 3000)
                   [Snapshot [(''k'', 8080), (''j'', 9), (''k'', 8081)], SocketOpens 1]) 1 = Some Opened
   \<and> d_sockets (step (run_events (discovery_start ''k'' 3000)
                   [Snapshot [(''k'', 8080), (''j'', 9), (''k'', 8081)], SocketOpens 1]) (SocketOpens 0)) 0
     = Some Closed
   \<and> d_outcome (step (run_events (discovery_start ''k'' 3000)
                   [Snapshot [(''k'', 8080), (''j'', 9), (''k'', 8081)], SocketOpens 1]) (SocketOpens 0))
     = Fulfilled 1
   \<and> d_outcome (step (run_events (discovery_start ''k'' 3000) []) TimeoutFires)
     = Rejected (timed_out 3000)
   \<and> TimedOut \<in> set (queue (run_events (discovery_start ''k'' 3000)
                   [Snapshot [(''k'', 8080)], Snapshot [(''k'', 8081)], TimeoutFires]))
   \<and> d_outcome (step (run_events (discovery_start ''k'' 3000)
                   [Snapshot [(''k'', 8080)], Snapshot [(''k'', 8081)], TimeoutFires]) (SocketFails 0))
     = Pending
   \<and> d_outcome (step (run_events (discovery_start ''k'' 3000)
                   [Snapshot [(''k'', 8080)], Snapshot [(''k'', 8081)], TimeoutFires, SocketFails 0])
                  (SocketFails 1))
     = Rejected (timed_out 3000)
   \<and> d_outcome (step (run_events (discovery_start ''k'' 3000)
                   [Snapshot [(''k'', 8080)], Snapshot [(''k'', 8081)], TimeoutFires, SocketFails 0])
                  (SocketOpens 1))
     = Fulfilled 1"
proof -
  have a1: "\<not> aborted (run_events (discovery_start ''k'' 3000) [Snapshot [(''k'', 8080), (''j'', 9), (''k'', 8081)]])"
    by (rule discovery_one_winner [OF refl, of "''k''" "[Snapshot [(''k'', 8080), (''j'', 9), (''k'', 8081)]]" 3000 1, THEN conjunct1, THEN mp]) (use two_candidates in simp)
  have a2: "d_outcome (step (run_events (discovery_start ''k'' 3000) [Snapshot [(''k'', 8080), (''j'', 9), (''k'', 8081)]]) (SocketOpens 1)) = Fulfilled 1"
    by (rule discovery_one_winner [OF refl, of "''k''" "[Snapshot [(''k'', 8080), (''j'', 9), (''k'', 8081)]]" 3000 1, THEN conjunct2, THEN conjunct2, THEN conjunct2, THEN conjunct1, THEN mp, THEN conjunct1]) (use two_candidates in simp)
  have a3: "step (run_events (discovery_start ''k'' 3000) [Snapshot [(''k'', 8080), (''j'', 9), (''k'', 8081)]]) TimeoutFires = (run_events (discovery_start ''k'' 3000) [Snapshot [(''k'', 8080), (''j'', 9), (''k'', 8081)]])\<lparr>d_timer := False, queue := queue (run_events (discovery_start ''k'' 3000) [Snapshot [(''k'', 8080), (''j'', 9), (''k'', 8081)]]) @ [TimedOut]\<rparr>"
    by (rule discovery_one_winner [OF refl, of "''k''" "[Snapshot [(''k'', 8080), (''j'', 9), (''k'', 8081)]]" 3000 1, THEN conjunct2, THEN conjunct2, THEN conjunct2, THEN conjunct2, THEN conjunct2, THEN conjunct2, THEN conjunct2, THEN conjunct1, THEN mp]) (use two_candidates in simp)
  have na: "\<not> aborted (run_events (discovery_start ''k'' 3000) [Snapshot [(''k'', 8080), (''j'', 9), (''k'', 8081)], SocketOpens 1])"
    by (rule discovery_one_winner [OF refl, of "''k''" "[Snapshot [(''k'', 8080), (''j'', 9), (''k'', 8081)], SocketOpens 1]" 3000 1, THEN conjunct1, THEN mp]) (use one_won in simp)
  have a4: "d_sockets (run_events (discovery_start ''k'' 3000) [Snapshot [(''k'', 8080), (''j'', 9), (''k'', 8081)], SocketOpens 1]) 1 = Some Opened"
    using discovery_one_winner [OF refl, of "''k''" "[Snapshot [(''k'', 8080), (''j'', 9), (''k'', 8081)], SocketOpens 1]" 3000 1, THEN conjunct2, THEN conjunct1] na one_won by simp
  have a5: "d_sockets (step (run_events (discovery_start ''k'' 3000) [Snapshot [(''k'', 8080), (''j'', 9), (''k'', 8081)], SocketOpens 1]) (SocketOpens 0)) 0 = Some Closed"
    by (rule discovery_one_winner [OF refl, of "''k''" "[Snapshot [(''k'', 8080), (''j'', 9), (''k'', 8081)], SocketOpens 1]" 3000 0, THEN conjunct2, THEN conjunct2, THEN conjunct2, THEN conjunct2, THEN conjunct1, THEN mp]) (use one_won na in simp)
  have a6: "d_outcome (step (run_events (discovery_start ''k'' 3000) [Snapshot [(''k'', 8080), (''j'', 9), (''k'', 8081)], SocketOpens 1]) (SocketOpens 0)) = Fulfilled 1"
    using discovery_one_winner [OF refl, of "''k''" "[Snapshot [(''k'', 8080), (''j'', 9), (''k'', 8081)], SocketOpens 1]" 3000 0 "SocketOpens 0", THEN conjunct2, THEN conjunct2, THEN conjunct1] one_won by simp
  have a7: "d_outcome (step (run_events (discovery_start ''k'' 3000) []) TimeoutFires) = Rejected (timed_out 3000)"
    by (rule discovery_one_winner [OF refl, of "''k''" "[]" 3000 0, THEN conjunct2, THEN conjunct2, THEN conjunct2, THEN conjunct2, THEN conjunct2, THEN conjunct2, THEN conjunct1, THEN mp]) (use idle_start in simp)
  have a8: "TimedOut \<in> set (queue (run_events (discovery_start ''k'' 3000) [Snapshot [(''k'', 8080)], Snapshot [(''k'', 8081)], TimeoutFires]))"
    by (rule discovery_one_winner [OF refl, of "''k''" "[Snapshot [(''k'', 8080)], Snapshot [(''k'', 8081)], TimeoutFires]" 3000 0, THEN conjunct2, THEN conjunct2, THEN conjunct2, THEN conjunct2, THEN conjunct2, THEN conjunct2, THEN conjunct2, THEN conjunct2, THEN conjunct1, THEN mp, THEN conjunct1]) (use timeout_behind_snapshot(1,2) in simp)
  have a9: "d_outcome (step (run_events (discovery_start ''k'' 3000) [Snapshot [(''k'', 8080)], Snapshot [(''k'', 8081)], TimeoutFires]) (SocketFails 0)) = Pending"
    using discovery_one_winner [OF refl, of "''k''" "[Snapshot [(''k'', 8080)], Snapshot [(''k'', 8081)], TimeoutFires]" 3000 0, THEN conjunct2, THEN conjunct2, THEN conjunct2, THEN conjunct2, THEN conjunct2, THEN conjunct2, THEN conjunct2, THEN conjunct2, THEN conjunct2, THEN conjunct1, THEN mp, OF conjI [OF timeout_behind_snapshot(1) conjI [OF timeout_behind_snapshot(3) timeout_behind_snapshot(4)]]]
    unfolding timeout_behind_snapshot(5) by (simp add: valid_port_def)
  have a10: "d_outcome (step (run_events (discovery_start ''k'' 3000) [Snapshot [(''k'', 8080)], Snapshot [(''k'', 8081)], TimeoutFires, SocketFails 0]) (SocketFails 1)) = Rejected (timed_out 3000)"
    using discovery_one_winner [OF refl, of "''k''" "[Snapshot [(''k'', 8080)], Snapshot [(''k'', 8081)], TimeoutFires, SocketFails 0]" 3000 1, THEN conjunct2, THEN conjunct2, THEN conjunct2, THEN conjunct2, THEN conjunct2, THEN conjunct2, THEN conjunct2, THEN conjunct2, THEN conjunct2, THEN conjunct1, THEN mp, OF conjI [OF second_exploration(1) conjI [OF second_exploration(2) second_exploration(3)]]]
    unfolding second_exploration(4) by (simp add: valid_port_def)
  have a11: "d_outcome (step (run_events (discovery_start ''k'' 3000) [Snapshot [(''k'', 8080)], Snapshot [(''k'', 8081)], TimeoutFires, SocketFails 0]) (SocketOpens 1)) = Fulfilled 1"
    by (rule discovery_one_winner [OF refl, of "''k''" "[Snapshot [(''k'', 8080)], Snapshot [(''k'', 8081)], TimeoutFires, SocketFails 0]" 3000 1, THEN conjunct2, THEN conjunct2, THEN conjunct2, THEN conjunct1, THEN mp, THEN conjunct1]) (use second_exploration(1,2) in simp)
  from a1 a2 a3 a4 a5 a6 a7 a8 a9 a10 a11 show ?thesis by (intro conjI)
qed

text \<open>
  The claim as stated says that the promise rejects if no candidate succeeds before the
  overall timeout elapses. With one advertised host whose socket is still connecting
  when the timer fires, the promise is pending after the timeout has elapsed, and the
  socket that opens afterwards resolves it.
\<close>

theorem discovery_late_success_counterexample:
  "d_outcome (run_events (discovery_start ''k'' 3000) [Snapshot [(''k'', 8080)], TimeoutFires]) = Pending
   \<and> \<not> d_timer (run_events (discovery_start ''k'' 3000) [Snapshot [(''k'', 8080)], TimeoutFires])
   \<and> d_outcome (run_events (discovery_start ''k'' 3000)
                  [Snapshot [(''k'', 8080)], TimeoutFires, SocketOpens 0]) = Fulfilled 0"
  by (simp add: discovery_eval)

text \<open>
  When a port advertised under the key is no port number, the exploration throws: the
  promise is rejected at once, and the candidate of the same snapshot that completes its
  handshake afterwards is not closed, although the promise was not resolved with it.
\<close>

lemma thrown_exploration_leaves_socket_open:
  "d_outcome (run_events (discovery_start ''k'' 3000) [Snapshot [(''k'', 8080), (''k'', 70000)]])
     = Rejected caught_unexpected
   \<and> d_sockets (run_events (discovery_start ''k'' 3000) [Snapshot [(''k'', 8080), (''k'', 70000)]]) 0
     = Some Connecting
   \<and> d_outcome (run_events (discovery_start ''k'' 3000)
        [Snapshot [(''k'', 8080), (''k'', 70000)], SocketOpens 0]) = Rejected caught_unexpected
   \<and> d_sockets (run_events (discovery_start ''k'' 3000)
        [Snapshot [(''k'', 8080), (''k'', 70000)], SocketOpens 0]) 0 = Some Opened"
  by (simp add: discovery_eval)

end
